theory Spec2Isabelle
  imports Main "HOL-Library.Word"
begin

unbundle bit_operations_syntax

section \<open>Machine types, error codes and page-table words\<close>

text \<open>
  The kernel is 32-bit: \<open>uint32_t\<close>, \<open>vaddr_t\<close>, \<open>pte_t\<close>, \<open>pde_t\<close> and the
  pointer type \<open>paddr_t\<close> are 32-bit words (\<open>NULL\<close> is the word 0); a frame counter
  is a \<open>uint8_t\<close>. C functions that return an \<open>int\<close> error code return an \<open>int\<close>
  here, with the codes of \<open>kern/inc/errors.h\<close>. A source function \<open>_f\<close> is named
  \<open>u_f\<close>, since an identifier cannot start with an underscore.
\<close>

type_synonym u32 = "32 word"
type_synonym u8 = "8 word"

text \<open>
  \<open>PAGE_SIZE\<close> comes from the support header \<open>x86/page.h\<close>; the masks and the shifts
  by 12 of \<open>kern/inc/page.h\<close> fix it at 4096. \<open>USER_MEM_START\<close> comes from
  \<open>common_kern.h\<close>; it is the parameter \<open>ums\<close> of every function that uses it.
\<close>

definition PAGE_SIZE :: u32 where "PAGE_SIZE = 4096"

definition PAGE_TABLE_ENTRIES :: nat where "PAGE_TABLE_ENTRIES = 1024"

definition ERR_INVALID_ARG :: int where "ERR_INVALID_ARG = -34"
definition ERR_MALLOC_FAIL :: int where "ERR_MALLOC_FAIL = -12"
definition ERR_SELF_NULL :: int where "ERR_SELF_NULL = -6"
definition ERR_NEGATIVE_SLEEP :: int where "ERR_NEGATIVE_SLEEP = -8"
definition ERR_ARG_NULL :: int where "ERR_ARG_NULL = -2"
definition ERR_THR_IN_LIST :: int where "ERR_THR_IN_LIST = -10"
definition ERR_NO_CHILDREN :: int where "ERR_NO_CHILDREN = -23"
definition ERR_NO_ORIGINAL_THREAD :: int where "ERR_NO_ORIGINAL_THREAD = -25"
definition ERR_CHILDREN_GONE :: int where "ERR_CHILDREN_GONE = -26"
definition ERR_NO_PROCESS :: int where "ERR_NO_PROCESS = -27"
definition ERR_WAIT_FULL :: int where "ERR_WAIT_FULL = -28"
definition ERR_PROCESS_NOT_EXITED :: int where "ERR_PROCESS_NOT_EXITED = -32"
definition ERR_NO_FRAMES :: int where "ERR_NO_FRAMES = -30"
definition ERR_KERNEL_FRAME :: int where "ERR_KERNEL_FRAME = -33"
definition ERR_FREE_OWNERLESS_FRAME :: int where "ERR_FREE_OWNERLESS_FRAME = -35"
definition ERR_TOO_MANY_FRAME_OWNERS :: int where "ERR_TOO_MANY_FRAME_OWNERS = -36"
definition ERR_PAGE_ALREADY_PRESENT :: int where "ERR_PAGE_ALREADY_PRESENT = -37"
definition ERR_DIRECTORY_NOT_PRESENT :: int where "ERR_DIRECTORY_NOT_PRESENT = -38"
definition ERR_KERNEL_PAGE :: int where "ERR_KERNEL_PAGE = -39"
definition ERR_PAGE_NOT_PRESENT :: int where "ERR_PAGE_NOT_PRESENT = -40"
definition ERR_WORN_OUT_NEW_PAGES :: int where "ERR_WORN_OUT_NEW_PAGES = -41"

lemmas err_defs =
  ERR_INVALID_ARG_def ERR_MALLOC_FAIL_def ERR_SELF_NULL_def ERR_NEGATIVE_SLEEP_def
  ERR_ARG_NULL_def ERR_THR_IN_LIST_def ERR_NO_CHILDREN_def ERR_NO_ORIGINAL_THREAD_def
  ERR_CHILDREN_GONE_def ERR_NO_PROCESS_def ERR_WAIT_FULL_def ERR_PROCESS_NOT_EXITED_def
  ERR_NO_FRAMES_def ERR_KERNEL_FRAME_def ERR_FREE_OWNERLESS_FRAME_def
  ERR_TOO_MANY_FRAME_OWNERS_def ERR_PAGE_ALREADY_PRESENT_def ERR_DIRECTORY_NOT_PRESENT_def
  ERR_KERNEL_PAGE_def ERR_PAGE_NOT_PRESENT_def ERR_WORN_OUT_NEW_PAGES_def

text \<open>
  What ends a kernel path without a return value: \<open>kernel_panic\<close> halts the machine,
  \<open>panic\<close> kills the calling thread, an array access outside its object is
  undefined in C, a kernel access to an unmapped virtual page faults, and so does an
  access through \<open>NULL\<close>.
\<close>

datatype fault = KernelPanic | ThreadPanic | OutOfBounds | KernelPageFault | NullPointer

subsection \<open>The macros of \<open>kern/inc/page.h\<close> and the flags of \<open>page_types.h\<close>\<close>

definition ADDR_MASK :: u32 where "ADDR_MASK = 0xFFFFF000"
definition FLAGS_MASK :: u32 where "FLAGS_MASK = 0xFFF"
definition DIR_MASK :: u32 where "DIR_MASK = 0xFFC00000"
definition PAGE_MASK :: u32 where "PAGE_MASK = 0x003FF000"

definition PE_SETFLAG :: "u32 \<Rightarrow> u32 \<Rightarrow> u32" where
  "PE_SETFLAG pe flag = pe OR flag"

definition PE_UNSETFLAG :: "u32 \<Rightarrow> u32 \<Rightarrow> u32" where
  "PE_UNSETFLAG pe flag = pe AND NOT flag"

definition PE_GETFLAG :: "u32 \<Rightarrow> u32 \<Rightarrow> bool" where
  "PE_GETFLAG pe flag = (pe AND FLAGS_MASK AND flag \<noteq> 0)"

definition PE_SETADDR :: "u32 \<Rightarrow> u32 \<Rightarrow> u32" where
  "PE_SETADDR pe addr = (addr AND ADDR_MASK) OR (pe AND FLAGS_MASK)"

definition PE_GETADDR :: "u32 \<Rightarrow> u32" where
  "PE_GETADDR pe = pe AND ADDR_MASK"

definition PDE_OFFSET :: "u32 \<Rightarrow> nat" where
  "PDE_OFFSET va = unat (drop_bit 22 (va AND DIR_MASK))"


definition PTE_OFFSET :: "u32 \<Rightarrow> nat" where
  "PTE_OFFSET va = unat (drop_bit 12 (va AND PAGE_MASK))"

text \<open>
  \<open>FRAME_ID\<close> mixes \<open>-1\<close> with an unsigned value, so its result is unsigned and the
  kernel marker is the word \<open>0xFFFFFFFF\<close>. \<open>FRAME_ADDR\<close> is applied to the
  \<open>int\<close> hint \<open>next_available_frame\<close>.
\<close>

definition FRAME_ID :: "u32 \<Rightarrow> u32 \<Rightarrow> u32" where
  "FRAME_ID ums pa = (if pa < ums then - 1 else drop_bit 12 (pa - ums))"

definition FRAME_ADDR :: "u32 \<Rightarrow> int \<Rightarrow> u32" where
  "FRAME_ADDR ums ident = push_bit 12 (word_of_int ident) + ums"

definition PTE_PRESENT :: u32 where "PTE_PRESENT = 0x1"
definition PTE_READWRITE :: u32 where "PTE_READWRITE = 0x2"
definition PTE_USER :: u32 where "PTE_USER = 0x4"
definition PTE_GLOBAL :: u32 where "PTE_GLOBAL = 0x100"
definition PTE_ZEROPAGE :: u32 where "PTE_ZEROPAGE = 0x200"
definition PTE_COPYONWRITE :: u32 where "PTE_COPYONWRITE = 0x400"

definition PDE_PRESENT :: u32 where "PDE_PRESENT = 0x1"
definition PDE_READWRITE :: u32 where "PDE_READWRITE = 0x2"
definition PDE_USER :: u32 where "PDE_USER = 0x4"

lemmas flag_defs =
  PTE_PRESENT_def PTE_READWRITE_def PTE_USER_def PTE_GLOBAL_def PTE_ZEROPAGE_def
  PTE_COPYONWRITE_def PDE_PRESENT_def PDE_READWRITE_def PDE_USER_def

lemmas pe_defs =
  PE_SETFLAG_def PE_UNSETFLAG_def PE_GETFLAG_def PE_SETADDR_def PE_GETADDR_def
  ADDR_MASK_def FLAGS_MASK_def

datatype mem_type_t =
  MEM_TYPE_TEXT | MEM_TYPE_RODATA | MEM_TYPE_DATA | MEM_TYPE_BSS
  | MEM_TYPE_HEAP | MEM_TYPE_STACK | MEM_TYPE_USER

section \<open>The virtual-memory state\<close>

text \<open>
  The globals of \<open>kern/vm/frame.c\<close> and \<open>kern/vm/page.c\<close> and the paging structures
  of the running process.
  \<^item> \<open>frames\<close> is the counter array; \<open>nb_frames\<close> is its length.
  \<^item> \<open>next_available_frame\<close> is the \<open>int\<close> hint, \<open>-1\<close> when no frame is free.
  \<^item> \<open>pd i\<close> is entry \<open>i\<close> of the page directory that \<open>cr3\<close> points to, and
    \<open>pt i j\<close> is entry \<open>j\<close> of the page table that directory entry \<open>i\<close> points to:
    every page table comes fresh from \<open>smemalign\<close> and is referenced by one directory
    entry, so a table is addressed by the index of its directory entry.
  \<^item> \<open>phys a\<close> is the content of the physical page at address \<open>a\<close>; an access through
    a virtual address reads or writes the page its table entry points to.
  \<^item> \<open>heap\<close> lists the results of the coming \<open>smemalign(PAGE_SIZE, PAGE_SIZE)\<close>
    calls, 0 (\<open>NULL\<close>) for a failed allocation; an exhausted list is a failed
    allocation.
  \<^item> \<open>memregions\<close> and \<open>next_memregion_idx\<close> are the fields of the running
    process that the paging system calls use; the index is an \<open>unsigned int\<close>, and
    the sentinel \<open>-1\<close> is the word \<open>0xFFFFFFFF\<close>.
  The mutexes \<open>fa_mutex\<close> and \<open>frame_buffer_lock\<close> serialise whole operations, so an
  operation is one atomic function of the state.
\<close>

type_synonym page_data = "u8 list"

record vm_state =
  frames :: "u8 list"
  next_available_frame :: int
  pd :: "nat \<Rightarrow> u32"
  pt :: "nat \<Rightarrow> nat \<Rightarrow> u32"
  zero_frame :: u32
  phys :: "u32 \<Rightarrow> page_data"
  cow_buffer :: page_data
  heap :: "u32 list"
  memregions :: "nat \<Rightarrow> u32"
  next_memregion_idx :: u32

definition zero_page :: page_data where
  "zero_page = replicate 4096 0"

definition smemalign :: "vm_state \<Rightarrow> u32 \<times> vm_state" where
  "smemalign s = (case heap s of [] \<Rightarrow> (0, s) | r # rs \<Rightarrow> (r, s\<lparr>heap := rs\<rparr>))"

section \<open>The frame allocator (\<open>kern/vm/frame.c\<close>)\<close>

text \<open>
  The search loop of \<open>_get_frame\<close>: \<open>k\<close> is the number of iterations left
  (\<open>nb_frames - i\<close>) and \<open>f\<close> the candidate; the result is the new hint, \<open>-1\<close> when
  the loop ends without \<open>found\<close>.
\<close>

fun next_free :: "u8 list \<Rightarrow> nat \<Rightarrow> nat \<Rightarrow> int" where
  "next_free fr 0 f = - 1"
| "next_free fr (Suc k) f =
     (if fr ! f = 0 then int f else next_free fr k ((f + 1) mod length fr))"

definition u_get_frame :: "u32 \<Rightarrow> u32 \<Rightarrow> vm_state \<Rightarrow> fault + (int \<times> vm_state)" where
  "u_get_frame ums frame s =
     (if frame mod PAGE_SIZE \<noteq> 0 then Inr (- 1, s)
      else if FRAME_ID ums frame = - 1 then Inr (ERR_KERNEL_FRAME, s)
      else let i = unat (FRAME_ID ums frame) in
        if length (frames s) \<le> i then Inl OutOfBounds
        else if frames s ! i = 255 then Inr (ERR_TOO_MANY_FRAME_OWNERS, s)
        else let fr = (frames s)[i := frames s ! i + 1] in
          if FRAME_ID ums frame = word_of_int (next_available_frame s)
          then Inr (0, s\<lparr>frames := fr,
                 next_available_frame := next_free fr (length fr) (nat (next_available_frame s))\<rparr>)
          else Inr (0, s\<lparr>frames := fr\<rparr>))"

definition get_frame :: "u32 \<Rightarrow> u32 \<Rightarrow> vm_state \<Rightarrow> fault + (int \<times> vm_state)" where
  "get_frame ums frame s = u_get_frame ums frame s"

definition u_allocate_frame :: "u32 \<Rightarrow> vm_state \<Rightarrow> fault + (u32 \<times> vm_state)" where
  "u_allocate_frame ums s =
     (if next_available_frame s = - 1 then Inr (0, s)
      else let frame = FRAME_ADDR ums (next_available_frame s) in
        case u_get_frame ums frame s of
          Inl f \<Rightarrow> Inl f
        | Inr (err, s') \<Rightarrow> if err \<noteq> 0 then Inl KernelPanic else Inr (frame, s'))"

definition allocate_frame :: "u32 \<Rightarrow> vm_state \<Rightarrow> fault + (u32 \<times> vm_state)" where
  "allocate_frame ums s = u_allocate_frame ums s"

definition free_frame :: "u32 \<Rightarrow> u32 \<Rightarrow> vm_state \<Rightarrow> fault + (int \<times> vm_state)" where
  "free_frame ums frame s =
     (if frame mod PAGE_SIZE \<noteq> 0 then Inr (- 1, s)
      else if FRAME_ID ums frame = - 1 then Inr (ERR_KERNEL_FRAME, s)
      else let i = unat (FRAME_ID ums frame) in
        if length (frames s) \<le> i then Inl OutOfBounds
        else if frames s ! i = 0 then Inr (ERR_FREE_OWNERLESS_FRAME, s)
        else let fr = (frames s)[i := frames s ! i - 1] in
          if fr ! i = 0 \<and> next_available_frame s = - 1
          then Inr (0, s\<lparr>frames := fr, next_available_frame := int i\<rparr>)
          else Inr (0, s\<lparr>frames := fr\<rparr>))"


section \<open>The page-table engine (\<open>kern/vm/page.c\<close>)\<close>

text \<open>
  \<open>get_pte\<close> returns the place of the page-table entry of \<open>va\<close>, a pair of the
  directory index and the table index, or \<open>None\<close> for \<open>NULL\<close>.
\<close>

definition get_pte :: "u32 \<Rightarrow> vm_state \<Rightarrow> (nat \<times> nat) option" where
  "get_pte va s =
     (if PE_GETFLAG (pd s (PDE_OFFSET va)) PDE_PRESENT
      then Some (PDE_OFFSET va, PTE_OFFSET va) else None)"

definition pte_at :: "vm_state \<Rightarrow> nat \<times> nat \<Rightarrow> u32" where
  "pte_at s l = pt s (fst l) (snd l)"

definition set_pte :: "nat \<times> nat \<Rightarrow> u32 \<Rightarrow> vm_state \<Rightarrow> vm_state" where
  "set_pte l v s = s\<lparr>pt := (pt s)(fst l := (pt s (fst l))(snd l := v))\<rparr>"

text \<open>
  The second half of \<open>create_page\<close>, from \<open>// Create the page table entry\<close> on: the
  new value of the entry \<open>pte0\<close>.
\<close>

definition fill_pte :: "mem_type_t \<Rightarrow> u32 \<Rightarrow> u32 \<Rightarrow> u32 \<Rightarrow> u32 \<Rightarrow> u32" where
  "fill_pte type ref_frame new_frame zf pte0 =
     (let p1 = PE_SETFLAG pte0 PTE_PRESENT;
          p2 = PE_SETFLAG p1 PTE_USER;
          p3 = (if type = MEM_TYPE_BSS
                then PE_SETADDR (PE_SETFLAG p2 PTE_ZEROPAGE) zf
                else if ref_frame \<noteq> 0
                then PE_SETADDR (PE_SETFLAG p2 PTE_COPYONWRITE) ref_frame
                else PE_SETADDR p2 new_frame)
      in case type of
           MEM_TYPE_TEXT \<Rightarrow> p3
         | MEM_TYPE_RODATA \<Rightarrow> p3
         | MEM_TYPE_DATA \<Rightarrow> PE_SETFLAG p3 PTE_READWRITE
         | MEM_TYPE_HEAP \<Rightarrow> PE_SETFLAG p3 PTE_READWRITE
         | MEM_TYPE_STACK \<Rightarrow> PE_SETFLAG p3 PTE_READWRITE
         | MEM_TYPE_BSS \<Rightarrow> PE_SETFLAG p3 PTE_READWRITE
         | MEM_TYPE_USER \<Rightarrow> PE_SETFLAG p3 PTE_READWRITE)"

text \<open>
  The two error exits of \<open>create_page\<close> that give \<open>new_frame\<close> back first; a failing
  \<open>free_frame\<close> is a \<open>panic\<close>.
\<close>

definition give_back :: "u32 \<Rightarrow> u32 \<Rightarrow> int \<Rightarrow> vm_state \<Rightarrow> fault + (int \<times> vm_state)" where
  "give_back ums new_frame code s =
     (case free_frame ums new_frame s of
        Inl f \<Rightarrow> Inl f
      | Inr (err, s') \<Rightarrow> if err \<noteq> 0 then Inl ThreadPanic else Inr (code, s'))"

definition create_page :: "u32 \<Rightarrow> u32 \<Rightarrow> mem_type_t \<Rightarrow> u32 \<Rightarrow> vm_state \<Rightarrow> fault + (int \<times> vm_state)" where
  "create_page ums va type ref_frame s =
     (if va mod PAGE_SIZE \<noteq> 0 then Inr (ERR_INVALID_ARG, s)
      else if va < ums then Inr (ERR_INVALID_ARG, s)
      else if ref_frame \<noteq> 0 \<and> ref_frame mod PAGE_SIZE \<noteq> 0 then Inr (ERR_INVALID_ARG, s)
      else if ref_frame \<noteq> 0 \<and> ref_frame < ums then Inr (ERR_INVALID_ARG, s)
      else case (if type \<noteq> MEM_TYPE_BSS \<and> ref_frame = 0 then allocate_frame ums s
                 else Inr (0, s)) of
        Inl f \<Rightarrow> Inl f
      | Inr (new_frame, s1) \<Rightarrow>
          if type \<noteq> MEM_TYPE_BSS \<and> ref_frame = 0 \<and> new_frame = 0
          then Inr (ERR_NO_FRAMES, s1)
          else case get_pte va s1 of
            None \<Rightarrow>
              (case smemalign s1 of (ptr, s2) \<Rightarrow>
                 if ptr = 0 then give_back ums new_frame ERR_MALLOC_FAIL s2
                 else let i = PDE_OFFSET va;
                          pde = PE_SETADDR (PE_SETFLAG (PE_SETFLAG (PE_SETFLAG (pd s2 i)
                                  PDE_PRESENT) PDE_READWRITE) PDE_USER) ptr;
                          s3 = s2\<lparr>pd := (pd s2)(i := pde), pt := (pt s2)(i := (\<lambda>j. 0))\<rparr>;
                          l = (i, PTE_OFFSET va)
                      in Inr (0, set_pte l
                            (fill_pte type ref_frame new_frame (zero_frame s3) (pte_at s3 l)) s3))
          | Some l \<Rightarrow>
              if PE_GETFLAG (pte_at s1 l) PTE_PRESENT
              then give_back ums new_frame ERR_PAGE_ALREADY_PRESENT s1
              else Inr (0, set_pte l
                     (fill_pte type ref_frame new_frame (zero_frame s1) (pte_at s1 l)) s1))"

definition destroy_page :: "u32 \<Rightarrow> u32 \<Rightarrow> vm_state \<Rightarrow> fault + (int \<times> vm_state)" where
  "destroy_page ums va s =
     (if va mod PAGE_SIZE \<noteq> 0 then Inr (ERR_INVALID_ARG, s)
      else case get_pte va s of
        None \<Rightarrow> Inr (ERR_DIRECTORY_NOT_PRESENT, s)
      | Some l \<Rightarrow>
          if \<not> PE_GETFLAG (pte_at s l) PTE_PRESENT then Inr (ERR_PAGE_NOT_PRESENT, s)
          else if PE_GETFLAG (pte_at s l) PTE_GLOBAL then Inr (ERR_KERNEL_PAGE, s)
          else if \<not> PE_GETFLAG (pte_at s l) PTE_USER then Inr (ERR_KERNEL_PAGE, s)
          else let frame = PE_GETADDR (pte_at s l) in
            case free_frame ums frame (set_pte l 0 s) of
              Inl f \<Rightarrow> Inl f
            | Inr (err, s') \<Rightarrow> if err \<noteq> 0 then Inl ThreadPanic else Inr (0, s'))"





section \<open>The paging system calls (\<open>kern/syscall/paging.c\<close>)\<close>

text \<open>
  The loops of \<open>_new_pages\<close> and \<open>_remove_pages\<close>. In each, the first number is the
  loop index and the second the number of iterations left.
  \<^item> \<open>destroy_loop\<close> is the loop over \<open>destroy_page\<close>, used for the roll-back in
    \<open>_new_pages\<close> and for the removal in \<open>_remove_pages\<close>; an error is a
    \<open>kernel_panic\<close> in both.
  \<^item> \<open>create_loop\<close> is the loop over \<open>create_page\<close> with its roll-back.
  \<^item> \<open>memset_loop\<close> is \<open>memset((void *)base, 0, len)\<close>, page by page through the
    page tables.
  \<^item> \<open>next_region\<close> is the search for the next free slot; it is entered with
    \<open>idx < PAGE_TABLE_ENTRIES\<close> only, the store to \<open>memregions[idx]\<close> coming first.
  \<^item> \<open>find_region\<close> is the search of \<open>_remove_pages\<close>, which gives \<open>reg_idx\<close> and
    \<open>num_pages\<close> at its \<open>break\<close>.
\<close>

fun destroy_loop :: "u32 \<Rightarrow> u32 \<Rightarrow> nat \<Rightarrow> nat \<Rightarrow> vm_state \<Rightarrow> fault + vm_state" where
  "destroy_loop ums base j 0 s = Inr s"
| "destroy_loop ums base j (Suc k) s =
     (case destroy_page ums (base + of_nat j * PAGE_SIZE) s of
        Inl f \<Rightarrow> Inl f
      | Inr (err, s') \<Rightarrow>
          if err \<noteq> 0 then Inl KernelPanic else destroy_loop ums base (Suc j) k s')"

fun create_loop :: "u32 \<Rightarrow> u32 \<Rightarrow> nat \<Rightarrow> nat \<Rightarrow> vm_state \<Rightarrow> fault + (int \<times> vm_state)" where
  "create_loop ums base i 0 s = Inr (0, s)"
| "create_loop ums base i (Suc k) s =
     (case create_page ums (base + of_nat i * PAGE_SIZE) MEM_TYPE_USER 0 s of
        Inl f \<Rightarrow> Inl f
      | Inr (err, s') \<Rightarrow>
          if err \<noteq> 0
          then (case destroy_loop ums base 0 i s' of
                  Inl f \<Rightarrow> Inl f
                | Inr s'' \<Rightarrow> Inr (err, s''))
          else create_loop ums base (Suc i) k s')"

fun memset_loop :: "u32 \<Rightarrow> nat \<Rightarrow> nat \<Rightarrow> vm_state \<Rightarrow> fault + vm_state" where
  "memset_loop base i 0 s = Inr s"
| "memset_loop base i (Suc k) s =
     (case get_pte (base + of_nat i * PAGE_SIZE) s of
        None \<Rightarrow> Inl KernelPageFault
      | Some l \<Rightarrow>
          if \<not> PE_GETFLAG (pte_at s l) PTE_PRESENT then Inl KernelPageFault
          else memset_loop base (Suc i) k
                 (s\<lparr>phys := (phys s)(PE_GETADDR (pte_at s l) := zero_page)\<rparr>))"

function next_region :: "(nat \<Rightarrow> u32) \<Rightarrow> nat \<Rightarrow> nat \<Rightarrow> nat" where
  "next_region m idx nextid =
     (if nextid = idx \<or> PAGE_TABLE_ENTRIES \<le> idx then nextid
      else if m nextid = 0 then nextid
      else next_region m idx ((nextid + 1) mod PAGE_TABLE_ENTRIES))"
  by pat_completeness auto
termination
proof (relation "measure (\<lambda>(m, idx, nextid).
         if nextid < PAGE_TABLE_ENTRIES
         then (idx + PAGE_TABLE_ENTRIES - nextid) mod PAGE_TABLE_ENTRIES
         else PAGE_TABLE_ENTRIES)")
  show "wf (measure (\<lambda>(m, idx, nextid).
         if nextid < PAGE_TABLE_ENTRIES
         then (idx + PAGE_TABLE_ENTRIES - nextid) mod PAGE_TABLE_ENTRIES
         else PAGE_TABLE_ENTRIES))"
    by simp
next
  fix m :: "nat \<Rightarrow> u32" and idx nextid :: nat
  assume a: "\<not> (nextid = idx \<or> PAGE_TABLE_ENTRIES \<le> idx)" "m nextid \<noteq> 0"
  show "((m, idx, (nextid + 1) mod PAGE_TABLE_ENTRIES), (m, idx, nextid))
     \<in> measure (\<lambda>(m, idx, nextid).
         if nextid < PAGE_TABLE_ENTRIES
         then (idx + PAGE_TABLE_ENTRIES - nextid) mod PAGE_TABLE_ENTRIES
         else PAGE_TABLE_ENTRIES)"
  proof (cases "nextid < PAGE_TABLE_ENTRIES")
    case False
    then show ?thesis by (simp add: PAGE_TABLE_ENTRIES_def)
  next
    case True
    show ?thesis
    proof (cases "nextid + 1 = PAGE_TABLE_ENTRIES")
      case True
      with a show ?thesis by (simp add: PAGE_TABLE_ENTRIES_def)
    next
      case False
      with True a show ?thesis
        by (cases "nextid < idx") (auto simp add: PAGE_TABLE_ENTRIES_def mod_if)
    qed
  qed
qed

declare next_region.simps [simp del]

fun find_region :: "(nat \<Rightarrow> u32) \<Rightarrow> u32 \<Rightarrow> nat \<Rightarrow> nat \<Rightarrow> (nat \<times> u32) option" where
  "find_region m base i 0 = None"
| "find_region m base i (Suc k) =
     (if m i AND 0xfffff000 = base then Some (i, m i AND 0xfff)
      else find_region m base (Suc i) k)"

text \<open>
  \<open>_new_pages\<close>. The argument block is read from user memory: \<open>args_ok\<close> is the
  result of \<open>check_array(args, 2)\<close>, \<open>base\<close> and \<open>len\<close> are \<open>args[0]\<close> and
  \<open>args[1]\<close>, the latter a C \<open>int\<close>.
\<close>

definition u_new_pages :: "u32 \<Rightarrow> bool \<Rightarrow> u32 \<Rightarrow> int \<Rightarrow> vm_state \<Rightarrow> fault + (int \<times> vm_state)" where
  "u_new_pages ums args_ok base len s =
     (if \<not> args_ok then Inr (ERR_INVALID_ARG, s)
      else if base mod PAGE_SIZE \<noteq> 0 then Inr (ERR_INVALID_ARG, s)
      else if len < 0 \<or> len mod 4096 \<noteq> 0 \<or> len > 0xfff * 4096 then Inr (ERR_INVALID_ARG, s)
      else if next_memregion_idx s = - 1 then Inr (ERR_WORN_OUT_NEW_PAGES, s)
      else let num_pages = nat (len div 4096) in
        case create_loop ums base 0 num_pages s of
          Inl f \<Rightarrow> Inl f
        | Inr (err, s1) \<Rightarrow>
            if err \<noteq> 0 then Inr (err, s1)
            else case memset_loop base 0 num_pages s1 of
              Inl f \<Rightarrow> Inl f
            | Inr s2 \<Rightarrow>
                let entry = base OR of_nat num_pages;
                    idx = unat (next_memregion_idx s2)
                in if PAGE_TABLE_ENTRIES \<le> idx then Inl OutOfBounds
                   else let m = (memregions s2)(idx := entry);
                            nextid = next_region m idx ((idx + 1) mod PAGE_TABLE_ENTRIES)
                        in Inr (0, s2\<lparr>memregions := m,
                              next_memregion_idx := (if nextid = idx then - 1 else of_nat nextid)\<rparr>))"

text \<open>
  \<open>_remove_pages\<close>. When the search finds nothing, \<open>num_pages\<close> keeps its initial 0.
\<close>

definition u_remove_pages :: "u32 \<Rightarrow> u32 \<Rightarrow> vm_state \<Rightarrow> fault + (int \<times> vm_state)" where
  "u_remove_pages ums base s =
     (if base mod PAGE_SIZE \<noteq> 0 then Inr (- 1, s)
      else case find_region (memregions s) base 0 PAGE_TABLE_ENTRIES of
        None \<Rightarrow> Inr (- 2, s)
      | Some (reg_idx, num_pages) \<Rightarrow>
          if num_pages = 0 then Inr (- 2, s)
          else case destroy_loop ums base 0 (unat num_pages) s of
            Inl f \<Rightarrow> Inl f
          | Inr s1 \<Rightarrow>
              Inr (0, s1\<lparr>memregions := (memregions s1)(reg_idx := 0),
                    next_memregion_idx := (if next_memregion_idx s1 = - 1 then of_nat reg_idx
                                           else next_memregion_idx s1)\<rparr>))"

text \<open>
  A sequence of paging system calls made by the running process, one after the other:
  \<open>paging_run\<close> gives the list of the values returned and the last state. A fault
  ends the run.
\<close>

datatype paging_call = NewPages bool u32 int | RemovePages u32

fun paging_run :: "u32 \<Rightarrow> paging_call list \<Rightarrow> vm_state \<Rightarrow> fault + (int list \<times> vm_state)" where
  "paging_run ums [] s = Inr ([], s)"
| "paging_run ums (NewPages args_ok base len # cs) s =
     (case u_new_pages ums args_ok base len s of
        Inl f \<Rightarrow> Inl f
      | Inr (r, s1) \<Rightarrow>
          (case paging_run ums cs s1 of
             Inl f \<Rightarrow> Inl f
           | Inr (rs, s2) \<Rightarrow> Inr (r # rs, s2)))"
| "paging_run ums (RemovePages base # cs) s =
     (case u_remove_pages ums base s of
        Inl f \<Rightarrow> Inl f
      | Inr (r, s1) \<Rightarrow>
          (case paging_run ums cs s1 of
             Inl f \<Rightarrow> Inl f
           | Inr (rs, s2) \<Rightarrow> Inr (r # rs, s2)))"

section \<open>Threads, processes and the scheduler lists\<close>

text \<open>
  A pointer to a thread control block is the thread's \<open>tid\<close>, a pointer to a process
  its \<open>pid\<close>, a pointer to a mutex an index; \<open>NULL\<close> is \<open>None\<close>. The control
  blocks are the stores \<open>threads\<close>, \<open>procs\<close> and \<open>mutexes\<close>.

  An intrusive list of \<open>kern/prog/thrlist.c\<close> (\<open>head\<close>, \<open>tail\<close>, \<open>size\<close> and the
  \<open>next\<close>/\<open>prev\<close> links) is the list of its tids from head to tail; \<open>size\<close> is
  its length and \<open>->prev\<close> steps towards the head. The lists are the run queue,
  the sleep queue and the waiter queue of each process, together \<open>queues\<close>;
  \<open>t_list\<close> is the field
  \<open>list\<close> of the control block, naming the list the thread is in. In the same way
  \<open>kids\<close> of a process is the chain \<open>youngest_child\<close>, \<open>older_sibling\<close>, \<dots> of its
  children, and \<open>pthreads\<close> the chain of its threads. The waiter lists of the mutexes
  are kept as the pointers they are (\<open>first_waiting\<close>, \<open>last_waiting\<close>,
  \<open>mutex_nextwait\<close>), since the code never resets \<open>mutex_nextwait\<close>.
\<close>

datatype thrstate_t = THR_RUNNING | THR_BLOCKED | THR_SLEEPING | THR_WAITING | THR_ZOMBIE

datatype process_state_t = RUNNING | EXITED | BURIED

datatype thrlist_id = RunningList | SleepingList | WaitingList nat

record thread_t =
  t_state :: thrstate_t
  t_process :: "nat option"
  t_list :: "thrlist_id option"
  wake :: u32
  mutex_nextwait :: "nat option"
  acquired_lock :: "nat option"

record process_t =
  exit_status :: int
  p_state :: process_state_t
  parent :: "nat option"
  kids :: "nat list"
  children :: u32
  pthreads :: "nat list"
  original_tid :: int
  p_threads :: u32

record mutex_t =
  mutex_lock :: bool
  owner :: "nat option"
  list_owner :: "nat option"
  first_waiting :: "nat option"
  last_waiting :: "nat option"
  previous_lock :: "nat option"

record kstate =
  threads :: "nat \<Rightarrow> thread_t"
  procs :: "nat \<Rightarrow> process_t"
  mutexes :: "nat \<Rightarrow> mutex_t"
  queues :: "thrlist_id \<Rightarrow> nat list"
  thrhash :: "nat list"
  num_ticks :: u32
  no_switch :: bool
  idle_thread :: "nat option"
  operational :: bool

definition upd_thread :: "nat \<Rightarrow> (thread_t \<Rightarrow> thread_t) \<Rightarrow> kstate \<Rightarrow> kstate" where
  "upd_thread t f st = st\<lparr>threads := (threads st)(t := f (threads st t))\<rparr>"

definition upd_proc :: "nat \<Rightarrow> (process_t \<Rightarrow> process_t) \<Rightarrow> kstate \<Rightarrow> kstate" where
  "upd_proc p f st = st\<lparr>procs := (procs st)(p := f (procs st p))\<rparr>"

definition upd_mutex :: "nat \<Rightarrow> (mutex_t \<Rightarrow> mutex_t) \<Rightarrow> kstate \<Rightarrow> kstate" where
  "upd_mutex m f st = st\<lparr>mutexes := (mutexes st)(m := f (mutexes st m))\<rparr>"

definition upd_list :: "thrlist_id \<Rightarrow> nat list \<Rightarrow> kstate \<Rightarrow> kstate" where
  "upd_list L xs st = st\<lparr>queues := (queues st)(L := xs)\<rparr>"

subsection \<open>\<open>kern/prog/thrlist.c\<close>\<close>

definition thrlist_add_head :: "nat option \<Rightarrow> thrlist_id \<Rightarrow> kstate \<Rightarrow> int \<times> kstate" where
  "thrlist_add_head thread L st =
     (case thread of
        None \<Rightarrow> (ERR_ARG_NULL, st)
      | Some t \<Rightarrow>
          if t_list (threads st t) \<noteq> None then (ERR_THR_IN_LIST, st)
          else (0, upd_thread t (\<lambda>c. c\<lparr>t_list := Some L\<rparr>) (upd_list L (t # queues st L) st)))"

definition thrlist_add_tail :: "nat option \<Rightarrow> thrlist_id \<Rightarrow> kstate \<Rightarrow> int \<times> kstate" where
  "thrlist_add_tail thread L st =
     (case thread of
        None \<Rightarrow> (ERR_ARG_NULL, st)
      | Some t \<Rightarrow>
          if t_list (threads st t) \<noteq> None then (ERR_THR_IN_LIST, st)
          else (0, upd_thread t (\<lambda>c. c\<lparr>t_list := Some L\<rparr>) (upd_list L (queues st L @ [t]) st)))"

text \<open>
  The loop of \<open>thrlist_add_sorted\<close> walks from the tail towards the head. Its
  argument is the list from \<open>current\<close> back to the head, so the reversed list at the
  start; the result is what is left when the loop stops, \<open>[]\<close> for
  \<open>current == NULL\<close>. The comparison is the unsigned one of \<open>wake\<close>.
\<close>

fun scan_back :: "(nat \<Rightarrow> thread_t) \<Rightarrow> u32 \<Rightarrow> nat list \<Rightarrow> nat list" where
  "scan_back th w [] = []"
| "scan_back th w (current # before) =
     (if wake (th current) > w then scan_back th w before else current # before)"

definition thrlist_add_sorted :: "nat option \<Rightarrow> thrlist_id \<Rightarrow> kstate \<Rightarrow> int \<times> kstate" where
  "thrlist_add_sorted thread L st =
     (case thread of
        None \<Rightarrow> (ERR_ARG_NULL, st)
      | Some t \<Rightarrow>
          if t_list (threads st t) \<noteq> None then (ERR_THR_IN_LIST, st)
          else if length (queues st L) = 0 then thrlist_add_head thread L st
          else case scan_back (threads st) (wake (threads st t)) (rev (queues st L)) of
            [] \<Rightarrow> thrlist_add_head thread L st
          | current # before \<Rightarrow>
              if current = last (queues st L) then thrlist_add_tail thread L st
              else (0, upd_thread t (\<lambda>c. c\<lparr>t_list := Some L\<rparr>)
                     (upd_list L (rev (current # before) @ t #
                        drop (length (current # before)) (queues st L)) st)))"

definition thrlist_remove :: "nat option \<Rightarrow> kstate \<Rightarrow> int \<times> kstate" where
  "thrlist_remove thread st =
     (case thread of
        None \<Rightarrow> (ERR_ARG_NULL, st)
      | Some t \<Rightarrow>
          (case t_list (threads st t) of
             None \<Rightarrow> (1, st)
           | Some L \<Rightarrow>
               (0, upd_thread t (\<lambda>c. c\<lparr>t_list := None\<rparr>)
                     (upd_list L (remove1 t (queues st L)) st))))"

subsection \<open>\<open>kern/prog/thread.c\<close> and the timer's counter\<close>

definition get_time :: "kstate \<Rightarrow> u32" where
  "get_time st = num_ticks st"

definition get_running :: "kstate \<Rightarrow> nat option" where
  "get_running st = (case queues st RunningList of [] \<Rightarrow> None | t # ts \<Rightarrow> Some t)"

definition get_self :: "kstate \<Rightarrow> fault + nat" where
  "get_self st = (case get_running st of None \<Rightarrow> Inl KernelPanic | Some t \<Rightarrow> Inr t)"

definition idle :: "kstate \<Rightarrow> nat option" where
  "idle st = idle_thread st"

definition unset_state :: "nat option \<Rightarrow> kstate \<Rightarrow> int \<times> kstate" where
  "unset_state thread st =
     (case thread of
        None \<Rightarrow> (ERR_ARG_NULL, st)
      | Some t \<Rightarrow>
          (case thrlist_remove thread st of (err, st1) \<Rightarrow>
             if err \<ge> 0 then (err, upd_thread t (\<lambda>c. c\<lparr>t_state := THR_ZOMBIE\<rparr>) st1)
             else (err, st1)))"

definition set_sleeping :: "nat option \<Rightarrow> u32 \<Rightarrow> kstate \<Rightarrow> int \<times> kstate" where
  "set_sleeping thread sleep st =
     (case thread of
        None \<Rightarrow> (ERR_ARG_NULL, st)
      | Some t \<Rightarrow>
          (case unset_state thread st of (err, st1) \<Rightarrow>
             if err < 0 then (err, st1)
             else let time = get_time st1;
                      st2 = upd_thread t (\<lambda>c. c\<lparr>wake := time + sleep\<rparr>) st1;
                      st3 = upd_thread t (\<lambda>c. c\<lparr>t_state := THR_SLEEPING\<rparr>) st2
                  in thrlist_add_sorted thread SleepingList st3))"

definition set_waiting :: "nat option \<Rightarrow> kstate \<Rightarrow> int \<times> kstate" where
  "set_waiting thread st =
     (case thread of
        None \<Rightarrow> (ERR_ARG_NULL, st)
      | Some t \<Rightarrow>
          (case t_process (threads st t) of
             None \<Rightarrow> (ERR_NO_PROCESS, st)
           | Some p \<Rightarrow>
               (case unset_state thread st of (err, st1) \<Rightarrow>
                  if err < 0 then (err, st1)
                  else thrlist_add_tail thread (WaitingList p)
                         (upd_thread t (\<lambda>c. c\<lparr>t_state := THR_WAITING\<rparr>) st1))))"

text \<open>
  \<open>set_running\<close> is what \<open>context_switch\<close> calls, as its last step, for the thread it
  switches to (\<open>kern/inc/context.h\<close>): the thread becomes the head of the run queue.
  \<open>set_esp0\<close> and \<open>set_cr3\<close> act outside this state.
\<close>

definition set_running :: "nat option \<Rightarrow> kstate \<Rightarrow> int \<times> kstate" where
  "set_running thread st =
     (case thread of
        None \<Rightarrow> (ERR_ARG_NULL, st)
      | Some t \<Rightarrow>
          (case unset_state thread st of (err, st1) \<Rightarrow>
             if err < 0 then (err, st1)
             else case thrlist_add_head thread RunningList st1 of (err2, st2) \<Rightarrow>
               if err2 < 0 then (err2, st2)
               else (0, upd_thread t (\<lambda>c. c\<lparr>t_state := THR_RUNNING\<rparr>) st2)))"

subsection \<open>\<open>_sleep\<close> of \<open>kern/syscall/management.c\<close>\<close>

text \<open>
  A system call either returns a value or reaches \<open>context_switch(self, other)\<close>;
  the switch itself is assembly outside \<open>src/\<close>, and the call returns when the
  thread is scheduled again. \<open>ticks\<close> is a C \<open>int\<close>, converted to \<open>unsigned int\<close>
  when it is passed to \<open>set_sleeping\<close>.
\<close>

datatype sys_ret = Return int | ContextSwitch nat "nat option"

definition u_sleep :: "int \<Rightarrow> kstate \<Rightarrow> fault + (sys_ret \<times> kstate)" where
  "u_sleep ticks st =
     (if ticks = 0 then Inr (Return 0, st)
      else if ticks < 0 then Inr (Return ERR_NEGATIVE_SLEEP, st)
      else case get_self st of
        Inl f \<Rightarrow> Inl f
      | Inr self \<Rightarrow>
          (case set_sleeping (Some self) (word_of_int ticks) (st\<lparr>no_switch := True\<rparr>) of
             (err, st1) \<Rightarrow>
               if err < 0 then Inr (Return err, st1\<lparr>no_switch := False\<rparr>)
               else let other = (case get_running st1 of None \<Rightarrow> idle st1 | Some t \<Rightarrow> Some t)
                    in Inr (ContextSwitch self other, st1)))"

subsection \<open>\<open>kern/prog/process.c\<close> and \<open>_wait\<close> of \<open>kern/syscall/lifecycle.c\<close>\<close>

text \<open>The loop of \<open>exited_child\<close> along the chain of children.\<close>

fun first_exited :: "(nat \<Rightarrow> process_t) \<Rightarrow> nat list \<Rightarrow> nat option" where
  "first_exited ps [] = None"
| "first_exited ps (child # older) =
     (if p_state (ps child) \<noteq> EXITED then first_exited ps older else Some child)"

definition exited_child :: "nat option \<Rightarrow> kstate \<Rightarrow> nat option" where
  "exited_child par st =
     (case par of
        None \<Rightarrow> None
      | Some p \<Rightarrow>
          if children (procs st p) = 0 then None
          else first_exited (procs st) (kids (procs st p)))"

text \<open>
  \<open>destroy_process\<close>: the threads of the process are destroyed (each leaves the
  hash table of live threads), the process is unlinked from the chain of its
  siblings and its parent's count drops. \<open>destroy_paging\<close> works on the paging
  structures of the destroyed process, which are not part of this state, and always
  returns 0.
\<close>

definition destroy_process :: "nat option \<Rightarrow> kstate \<Rightarrow> int \<times> kstate" where
  "destroy_process process st =
     (case process of
        None \<Rightarrow> (ERR_ARG_NULL, st)
      | Some p \<Rightarrow>
          if p_state (procs st p) \<noteq> EXITED then (ERR_PROCESS_NOT_EXITED, st)
          else let st1 = upd_proc p (\<lambda>c. c\<lparr>p_state := BURIED\<rparr>) st;
                   st2 = (upd_proc p (\<lambda>c. c\<lparr>pthreads := []\<rparr>) st1)
                           \<lparr>thrhash := filter (\<lambda>t. t \<notin> set (pthreads (procs st1 p))) (thrhash st1)\<rparr>
               in case parent (procs st2 p) of
                    None \<Rightarrow> (0, st2)
                  | Some q \<Rightarrow>
                      (0, upd_proc q (\<lambda>c. c\<lparr>kids := remove1 p (kids c),
                                            children := children c - 1\<rparr>) st2))"

text \<open>
  \<open>_wait\<close>. \<open>status_ok\<close> is the result of \<open>check_page(status_ptr, TRUE)\<close>. The
  result carries the value stored through \<open>status_ptr\<close>, if a store is made. In the
  loop the thread reaches \<open>context_switch\<close> in state Waiting; when it runs again
  the loop test is evaluated again, which is \<open>wait_loop\<close> once more.
\<close>

datatype wait_ret = WReturn int "int option" | WSwitch nat "nat option"

definition wait_loop :: "nat \<Rightarrow> nat \<Rightarrow> u32 \<Rightarrow> kstate \<Rightarrow> wait_ret \<times> kstate" where
  "wait_loop self task status_ptr st =
     (case exited_child (Some task) st of
        None \<Rightarrow>
          if children (procs st task) > 0 then
            (case set_waiting (Some self) (st\<lparr>no_switch := True\<rparr>) of (err, st1) \<Rightarrow>
               if err < 0 then (WReturn err None, st1)
               else (WSwitch self (case get_running st1 of None \<Rightarrow> idle st1 | Some t \<Rightarrow> Some t),
                     st1))
          else (WReturn ERR_CHILDREN_GONE None, st)
      | Some child \<Rightarrow>
          if children (procs st task) = 0 then (WReturn ERR_CHILDREN_GONE None, st)
          else let stored = (if status_ptr \<noteq> 0 then Some (exit_status (procs st child)) else None);
                   otid = original_tid (procs st child)
               in if otid = - 1 then (WReturn ERR_NO_ORIGINAL_THREAD stored, st)
                  else case destroy_process (Some child) st of (derr, st1) \<Rightarrow>
                    if derr \<noteq> 0 then (WReturn derr stored, st1)
                    else (WReturn otid stored, st1))"

definition u_wait :: "u32 \<Rightarrow> bool \<Rightarrow> kstate \<Rightarrow> fault + (wait_ret \<times> kstate)" where
  "u_wait status_ptr status_ok st =
     (if status_ptr \<noteq> 0 \<and> \<not> status_ok then Inr (WReturn ERR_INVALID_ARG None, st)
      else case get_self st of
        Inl f \<Rightarrow> Inl f
      | Inr self \<Rightarrow>
          (case t_process (threads st self) of
             None \<Rightarrow> Inl NullPointer
           | Some task \<Rightarrow>
               if children (procs st task) = 0 then Inr (WReturn ERR_NO_CHILDREN None, st)
               else if children (procs st task) \<le> of_nat (length (queues st (WaitingList task)))
               then Inr (WReturn ERR_WAIT_FULL None, st)
               else Inr (wait_loop self task status_ptr st)))"

section \<open>The kernel mutex (\<open>kern/lock/mutex.c\<close>)\<close>

definition waitlist_addLast :: "nat \<Rightarrow> nat \<Rightarrow> kstate \<Rightarrow> kstate" where
  "waitlist_addLast mp thr st =
     (if \<not> operational st then st
      else case last_waiting (mutexes st mp) of
        None \<Rightarrow> upd_mutex mp (\<lambda>m. m\<lparr>first_waiting := Some thr, last_waiting := Some thr\<rparr>) st
      | Some l \<Rightarrow>
          upd_mutex mp (\<lambda>m. m\<lparr>last_waiting := Some thr\<rparr>)
            (upd_thread l (\<lambda>c. c\<lparr>mutex_nextwait := Some thr\<rparr>) st))"

definition waitlist_removeHead :: "nat \<Rightarrow> kstate \<Rightarrow> nat option \<times> kstate" where
  "waitlist_removeHead mp st =
     (if \<not> operational st then (None, st)
      else case first_waiting (mutexes st mp) of
        None \<Rightarrow> (None, st)
      | Some nxt \<Rightarrow>
          let st1 = upd_mutex mp (\<lambda>m. m\<lparr>first_waiting := mutex_nextwait (threads st nxt)\<rparr>) st
          in if last_waiting (mutexes st1 mp) = Some nxt
             then (Some nxt, upd_mutex mp (\<lambda>m. m\<lparr>last_waiting := None\<rparr>) st1)
             else (Some nxt, st1))"

text \<open>
  The \<open>do \<dots> while\<close> loop of \<open>mutex_unlock\<close>. It follows \<open>mutex_nextwait\<close> pointers
  and need not end on a cyclic chain, so its result is optional: \<open>None\<close> is a loop
  that never ends.
\<close>

partial_function (option) release_loop :: "nat \<Rightarrow> kstate \<Rightarrow> kstate option" where
  "release_loop mp st =
     (case waitlist_removeHead mp st of (nxt, st1) \<Rightarrow>
        let st2 = upd_mutex mp (\<lambda>m. m\<lparr>owner := nxt\<rparr>) st1
        in case nxt of
             None \<Rightarrow> Some st2
           | Some t \<Rightarrow>
               if t_state (threads st2 t) \<noteq> THR_RUNNING then release_loop mp st2
               else Some st2)"

text \<open>
  \<open>mutex_unlock\<close> returns, or ends in \<open>_yield\<close> to the new owner. Its first loop
  takes the metadata lock with \<open>testandset\<close>: when the lock is taken the caller
  yields to the thread that holds it and tries again later, which is the outcome
  \<open>SpinYield\<close>. \<open>mp->list_owner = FALSE\<close> stores the null pointer.
\<close>

datatype unlock_ret = Unlocked | YieldTo nat | SpinYield "nat option"

definition mutex_unlock :: "nat \<Rightarrow> kstate \<Rightarrow> (fault + (unlock_ret \<times> kstate)) option" where
  "mutex_unlock mp st =
     (if \<not> operational st then Some (Inr (Unlocked, st))
      else case get_self st of
        Inl f \<Rightarrow> Some (Inl f)
      | Inr me \<Rightarrow>
          if mutex_lock (mutexes st mp) then Some (Inr (SpinYield (list_owner (mutexes st mp)), st))
          else let st1 = upd_mutex mp (\<lambda>m. m\<lparr>mutex_lock := True, list_owner := Some me\<rparr>) st in
            if Some mp \<noteq> acquired_lock (threads st1 me) then Some (Inl KernelPanic)
            else let st2 = upd_thread me (\<lambda>c. c\<lparr>acquired_lock := previous_lock (mutexes st1 mp)\<rparr>) st1;
                     st3 = upd_mutex mp (\<lambda>m. m\<lparr>previous_lock := None\<rparr>) st2
                 in if owner (mutexes st3 mp) = None
                    then Some (Inr (Unlocked,
                           upd_mutex mp (\<lambda>m. m\<lparr>mutex_lock := False, list_owner := None\<rparr>) st3))
                    else case release_loop mp st3 of
                      None \<Rightarrow> None
                    | Some st4 \<Rightarrow>
                        let st5 = upd_mutex mp (\<lambda>m. m\<lparr>mutex_lock := False, list_owner := None\<rparr>) st4
                        in case owner (mutexes st5 mp) of
                             None \<Rightarrow> Some (Inr (Unlocked, st5))
                           | Some t \<Rightarrow> Some (Inr (YieldTo t, st5)))"

definition mutex_init :: "nat \<Rightarrow> kstate \<Rightarrow> kstate" where
  "mutex_init mp st =
     upd_mutex mp (\<lambda>m. m\<lparr>first_waiting := None, last_waiting := None, owner := None,
                           list_owner := None, mutex_lock := False, previous_lock := None\<rparr>) st"

text \<open>
  The function \<open>mutex_lock\<close> (the field \<open>mutex_lock\<close> of a mutex is its metadata
  lock). The function suspends in \<open>_yield\<close>, so it is given in stretches, each atomic
  under the metadata lock.
  \<^item> \<open>mutex_lock_fn\<close> runs from the entry to the first \<open>_yield\<close> or to the return.
  \<^item> \<open>mutex_lock_fn_resumed\<close> runs from the return of \<open>_yield(mp->owner->tid)\<close> to the
    next \<open>_yield\<close> or to the return; \<open>me\<close> is the local variable of the suspended call.
  \<^item> \<open>mutex_lock_wait\<close> is the loop \<open>while (mp->owner != me)\<close> from its test on, with
    the value of the local \<open>waiting\<close>; \<open>mp->owner->tid\<close> with a null owner is a
    fault.
  \<^item> \<open>mutex_lock_tail\<close> is the code from \<open>if (mp == me->acquired_lock)\<close> to the end.
  The outcome \<open>LockSpin\<close> is a \<open>_yield\<close> inside a \<open>testandset\<close> loop, after which the
  same stretch is run again.
\<close>

datatype lock_step = LockReturned | LockYieldOwner nat | LockSpin "nat option"

definition mutex_lock_tail :: "nat \<Rightarrow> nat \<Rightarrow> kstate \<Rightarrow> fault + (lock_step \<times> kstate)" where
  "mutex_lock_tail me mp st =
     (if Some mp = acquired_lock (threads st me) then Inl ThreadPanic
      else let st1 = upd_mutex mp (\<lambda>m. m\<lparr>previous_lock := acquired_lock (threads st me)\<rparr>) st;
               st2 = upd_thread me (\<lambda>c. c\<lparr>acquired_lock := Some mp\<rparr>) st1
           in Inr (LockReturned,
                   upd_mutex mp (\<lambda>m. m\<lparr>mutex_lock := False, list_owner := None\<rparr>) st2))"

definition mutex_lock_wait :: "bool \<Rightarrow> nat \<Rightarrow> nat \<Rightarrow> kstate \<Rightarrow> fault + (lock_step \<times> kstate)" where
  "mutex_lock_wait waiting me mp st =
     (if owner (mutexes st mp) = Some me then mutex_lock_tail me mp st
      else let st1 = (if waiting then st else waitlist_addLast mp me st);
               st2 = upd_mutex mp (\<lambda>m. m\<lparr>mutex_lock := False, list_owner := None\<rparr>) st1
           in case owner (mutexes st2 mp) of
                None \<Rightarrow> Inl NullPointer
              | Some holder \<Rightarrow> Inr (LockYieldOwner holder, st2))"

definition mutex_lock_fn :: "nat \<Rightarrow> kstate \<Rightarrow> fault + (lock_step \<times> kstate)" where
  "mutex_lock_fn mp st =
     (if \<not> operational st then Inr (LockReturned, st)
      else case get_self st of
        Inl f \<Rightarrow> Inl f
      | Inr me \<Rightarrow>
          if mutex_lock (mutexes st mp) then Inr (LockSpin (list_owner (mutexes st mp)), st)
          else let st1 = upd_mutex mp (\<lambda>m. m\<lparr>mutex_lock := True, list_owner := Some me\<rparr>) st in
            if owner (mutexes st1 mp) = None
            then mutex_lock_tail me mp (upd_mutex mp (\<lambda>m. m\<lparr>owner := Some me\<rparr>) st1)
            else mutex_lock_wait False me mp st1)"

definition mutex_lock_fn_resumed :: "nat \<Rightarrow> nat \<Rightarrow> kstate \<Rightarrow> fault + (lock_step \<times> kstate)" where
  "mutex_lock_fn_resumed me mp st =
     (if mutex_lock (mutexes st mp) then Inr (LockSpin (list_owner (mutexes st mp)), st)
      else mutex_lock_wait True me mp
             (upd_mutex mp (\<lambda>m. m\<lparr>mutex_lock := True, list_owner := Some me\<rparr>) st))"

section \<open>The reader/writer lock (\<open>kern/lock/rwlock.c\<close>)\<close>

text \<open>
  The fields of the lock that \<open>rwlock_lock\<close> and \<open>rwlock_unlock\<close> read and write;
  the inner mutex makes each stretch of code between two \<open>cond_wait\<close> calls atomic.
  \<open>rwlock_lock\<close> suspends in \<open>cond_wait\<close>: \<open>rwlock_lock\<close> below runs from the
  entry to the first \<open>cond_wait\<close> or to the end, and \<open>rwlock_lock_woken\<close> runs
  from the return of \<open>cond_wait\<close> to the next \<open>cond_wait\<close> or to the end. The
  counters are C \<open>int\<close>s.
\<close>

record rwlock_t =
  writer_in :: bool
  readers_in :: int
  writers_waiting :: int
  readers_waiting :: int

datatype cond_id = No_threads_in | No_writers_in

datatype lock_ret = Locked | CondWait cond_id | AssertFailed

datatype notify = Nothing | CondSignal cond_id | CondBroadcast cond_id

definition RWLOCK_READ :: int where "RWLOCK_READ = 0"
definition RWLOCK_WRITE :: int where "RWLOCK_WRITE = 1"

text \<open>The \<open>while\<close> test of the reader with the code after it.\<close>

definition read_loop :: "rwlock_t \<Rightarrow> lock_ret \<times> rwlock_t" where
  "read_loop rw =
     (if writer_in rw \<or> writers_waiting rw > 0
      then (CondWait No_writers_in, rw\<lparr>readers_waiting := readers_waiting rw + 1\<rparr>)
      else (Locked, rw\<lparr>readers_in := readers_in rw + 1\<rparr>))"

definition rwlock_lock :: "int \<Rightarrow> rwlock_t \<Rightarrow> lock_ret \<times> rwlock_t" where
  "rwlock_lock type rw =
     (if type = RWLOCK_READ then read_loop rw
      else if type = RWLOCK_WRITE then
        (if writer_in rw \<or> readers_in rw > 0
         then (CondWait No_threads_in, rw\<lparr>writers_waiting := writers_waiting rw + 1\<rparr>)
         else (Locked, rw\<lparr>writer_in := True\<rparr>))
      else (AssertFailed, rw))"

definition rwlock_lock_woken :: "int \<Rightarrow> rwlock_t \<Rightarrow> lock_ret \<times> rwlock_t" where
  "rwlock_lock_woken type rw =
     (if type = RWLOCK_READ then read_loop (rw\<lparr>readers_waiting := readers_waiting rw - 1\<rparr>)
      else if type = RWLOCK_WRITE then
        (Locked, rw\<lparr>writers_waiting := writers_waiting rw - 1, writer_in := True\<rparr>)
      else (AssertFailed, rw))"

definition rwlock_unlock :: "rwlock_t \<Rightarrow> notify \<times> rwlock_t" where
  "rwlock_unlock rw =
     (if writer_in rw then
        (if writers_waiting rw \<noteq> 0 then (CondSignal No_threads_in, rw)
         else (CondBroadcast No_writers_in, rw\<lparr>writer_in := False\<rparr>))
      else let rw1 = rw\<lparr>readers_in := readers_in rw - 1\<rparr> in
        if readers_in rw1 = 0 \<and> writers_waiting rw1 > 0 then (CondSignal No_threads_in, rw1)
        else (Nothing, rw1))"

definition rwlock_init :: rwlock_t where
  "rwlock_init = \<lparr>writer_in = False, readers_in = 0, writers_waiting = 0, readers_waiting = 0\<rparr>"

section \<open>Invariants of the kernel state\<close>

text \<open>
  The sleep queue is well formed when no thread is in it twice and the threads in it
  are those whose \<open>list\<close> field points to it. It is sorted when the \<open>wake\<close> times
  along it, compared as \<open>unsigned int\<close>, never decrease.
\<close>

definition sleep_wf :: "kstate \<Rightarrow> bool" where
  "sleep_wf st =
     (distinct (queues st SleepingList)
      \<and> (\<forall>t. t \<in> set (queues st SleepingList) \<longleftrightarrow> t_list (threads st t) = Some SleepingList))"

definition sleep_sorted :: "kstate \<Rightarrow> bool" where
  "sleep_sorted st = sorted (map (\<lambda>t. wake (threads st t)) (queues st SleepingList))"

text \<open>
  The wait list of a mutex is the chain of \<open>mutex_nextwait\<close> pointers from
  \<open>first_waiting\<close> to \<open>last_waiting\<close>. \<open>waitq st mp xs\<close> says that the chain of mutex
  \<open>mp\<close> holds the threads \<open>xs\<close>, earliest first. An empty list is \<open>last_waiting = NULL\<close>,
  as \<open>waitlist_addLast\<close> tests it; \<open>first_waiting\<close> and the \<open>mutex_nextwait\<close> of the last
  thread are not constrained, since the code never resets them.
\<close>

fun linked :: "(nat \<Rightarrow> thread_t) \<Rightarrow> nat list \<Rightarrow> bool" where
  "linked th [] = True"
| "linked th [x] = True"
| "linked th (x # y # r) = (mutex_nextwait (th x) = Some y \<and> linked th (y # r))"

definition waitq :: "kstate \<Rightarrow> nat \<Rightarrow> nat list \<Rightarrow> bool" where
  "waitq st mp xs =
     (distinct xs \<and> linked (threads st) xs
      \<and> (if xs = [] then last_waiting (mutexes st mp) = None
          else first_waiting (mutexes st mp) = Some (hd xs)
             \<and> last_waiting (mutexes st mp) = Some (last xs)))"

text \<open>
  Invariants of the virtual-memory state that the paging system calls rely on.
  \<^item> \<open>hint_in_range\<close>: the hint \<open>next_available_frame\<close> is \<open>-1\<close> or an index of
    the frame table.
  \<^item> \<open>pt_clean\<close>: in a present page table an entry that is not present does not
    have the Global flag (a fresh table is zeroed and \<open>destroy_page\<close> writes 0).
  \<open>page_on ums s va x\<close> says that the page at \<open>va\<close> is mapped for the user, on the
  frame number \<open>x\<close> of user memory.
\<close>

definition hint_in_range :: "vm_state \<Rightarrow> bool" where
  "hint_in_range s =
     (next_available_frame s = - 1
      \<or> (0 \<le> next_available_frame s \<and> nat (next_available_frame s) < length (frames s)))"

definition pt_clean :: "vm_state \<Rightarrow> bool" where
  "pt_clean s =
     (\<forall>d < PAGE_TABLE_ENTRIES. \<forall>t < PAGE_TABLE_ENTRIES.
        PE_GETFLAG (pd s d) PDE_PRESENT \<and> \<not> PE_GETFLAG (pt s d t) PTE_PRESENT
        \<longrightarrow> \<not> PE_GETFLAG (pt s d t) PTE_GLOBAL)"

definition page_on :: "u32 \<Rightarrow> vm_state \<Rightarrow> u32 \<Rightarrow> nat \<Rightarrow> bool" where
  "page_on ums s va x =
     (PE_GETFLAG (pd s (PDE_OFFSET va)) PDE_PRESENT
      \<and> PE_GETFLAG (pt s (PDE_OFFSET va) (PTE_OFFSET va)) PTE_PRESENT
      \<and> PE_GETFLAG (pt s (PDE_OFFSET va) (PTE_OFFSET va)) PTE_USER
      \<and> \<not> PE_GETFLAG (pt s (PDE_OFFSET va) (PTE_OFFSET va)) PTE_GLOBAL
      \<and> ums \<le> PE_GETADDR (pt s (PDE_OFFSET va) (PTE_OFFSET va))
      \<and> unat (FRAME_ID ums (PE_GETADDR (pt s (PDE_OFFSET va) (PTE_OFFSET va)))) = x)"

section \<open>Example states\<close>

text \<open>
  Concrete states on which the theorems below are instantiated. In \<open>vm_example\<close>
  user memory starts at \<open>0x1000000\<close> and has four frames, with counters 255, 0, 2
  and 1; the page directory has one page table, for the addresses from \<open>0x1000000\<close>
  to \<open>0x13FFFFF\<close>, and that table is empty.
\<close>

definition vm_example :: vm_state where
  "vm_example = \<lparr>frames = [255, 0, 2, 1], next_available_frame = 1,
     pd = (\<lambda>i. if i = 4 then 0x7007 else 0), pt = (\<lambda>i j. 0), zero_frame = 0x5000,
     phys = (\<lambda>a. []), cow_buffer = [], heap = [], memregions = (\<lambda>i. 0),
     next_memregion_idx = 0\<rparr>"

text \<open>
  In \<open>k_example\<close> thread 32 runs and threads 33 and 34 sleep until ticks 100 and
  200; the tick counter is at 50.
\<close>

definition thread_example :: "thrstate_t \<Rightarrow> thrlist_id option \<Rightarrow> u32 \<Rightarrow> thread_t" where
  "thread_example s l w = \<lparr>t_state = s, t_process = Some 5, t_list = l, wake = w,
     mutex_nextwait = None, acquired_lock = None\<rparr>"

definition process_example :: process_t where
  "process_example = \<lparr>exit_status = - 1, p_state = RUNNING, parent = None, kids = [],
     children = 0, pthreads = [], original_tid = - 1, p_threads = 0\<rparr>"

definition mutex_example :: mutex_t where
  "mutex_example = \<lparr>mutex_lock = False, owner = None, list_owner = None,
     first_waiting = None, last_waiting = None, previous_lock = None\<rparr>"

definition k_example :: kstate where
  "k_example = \<lparr>
     threads = (\<lambda>t. if t = 32 then thread_example THR_RUNNING (Some RunningList) 0
                     else if t = 33 then thread_example THR_SLEEPING (Some SleepingList) 100
                     else if t = 34 then thread_example THR_SLEEPING (Some SleepingList) 200
                     else thread_example THR_ZOMBIE None 0),
     procs = (\<lambda>p. process_example),
     mutexes = (\<lambda>m. mutex_example),
     queues = (\<lambda>L. case L of RunningList \<Rightarrow> [32] | SleepingList \<Rightarrow> [33, 34] | WaitingList p \<Rightarrow> []),
     thrhash = [32, 33, 34],
     num_ticks = 50,
     no_switch = False,
     idle_thread = None,
     operational = True\<rparr>"



text \<open>
  In \<open>k_wait\<close> the running thread 32 belongs to process 5, which has the children 3
  (running) and 2 (exited with status 7, original thread 40) and no waiting thread.
  In \<open>k_waitfull\<close> process 5 has the single child 2, exited, and thread 35 already
  waits.
\<close>

definition k_wait :: kstate where
  "k_wait = k_example\<lparr>procs := (\<lambda>p.
       if p = 5 then process_example\<lparr>kids := [3, 2], children := 2\<rparr>
       else if p = 2 then process_example\<lparr>p_state := EXITED, exit_status := 7,
              parent := Some 5, original_tid := 40, pthreads := [40]\<rparr>
       else if p = 3 then process_example\<lparr>parent := Some 5, original_tid := 41, pthreads := [41]\<rparr>
       else process_example)\<rparr>"

definition k_waitfull :: kstate where
  "k_waitfull = k_example\<lparr>procs := (\<lambda>p.
       if p = 5 then process_example\<lparr>kids := [2], children := 1\<rparr>
       else if p = 2 then process_example\<lparr>p_state := EXITED, exit_status := 7,
              parent := Some 5, original_tid := 40, pthreads := [40]\<rparr>
       else process_example),
     queues := (\<lambda>L. case L of RunningList \<Rightarrow> [32] | SleepingList \<Rightarrow> [33, 34]
                  | WaitingList p \<Rightarrow> (if p = 5 then [35] else []))\<rparr>"

text \<open>
  Four states of a reader/writer lock, one after the other: a reader has entered the
  fresh lock; a writer has arrived and waits; the reader has left and signalled
  \<open>no_threads_in\<close>; a second writer has arrived and entered before the woken writer
  ran.
\<close>

definition rw_reader_in :: rwlock_t where
  "rw_reader_in = snd (rwlock_lock RWLOCK_READ rwlock_init)"

definition rw_writer_waits :: rwlock_t where
  "rw_writer_waits = snd (rwlock_lock RWLOCK_WRITE rw_reader_in)"

definition rw_reader_out :: rwlock_t where
  "rw_reader_out = snd (rwlock_unlock rw_writer_waits)"

definition rw_second_writer_in :: rwlock_t where
  "rw_second_writer_in = snd (rwlock_lock RWLOCK_WRITE rw_reader_out)"

text \<open>
  Mutex 7 is held by the running thread 32. Threads 33, 36 and 37 wait for it in this
  order; thread 33 sleeps, and the \<open>mutex_nextwait\<close> of thread 37 is left over from an
  earlier wait.
\<close>

definition k_mutex :: kstate where
  "k_mutex = k_example\<lparr>
     threads := (\<lambda>t.
       if t = 32 then (thread_example THR_RUNNING (Some RunningList) 0)\<lparr>acquired_lock := Some 7\<rparr>
       else if t = 33 then (thread_example THR_SLEEPING (Some SleepingList) 100)
                             \<lparr>mutex_nextwait := Some 36\<rparr>
       else if t = 34 then thread_example THR_SLEEPING (Some SleepingList) 200
       else if t = 36 then (thread_example THR_RUNNING (Some RunningList) 0)
                             \<lparr>mutex_nextwait := Some 37\<rparr>
       else if t = 37 then (thread_example THR_RUNNING (Some RunningList) 0)
                             \<lparr>mutex_nextwait := Some 33\<rparr>
       else thread_example THR_ZOMBIE None 0),
     mutexes := (\<lambda>m. if m = 7 then mutex_example\<lparr>owner := Some 32, first_waiting := Some 33,
                                       last_waiting := Some 37\<rparr>
                     else mutex_example),
     queues := (\<lambda>L. case L of RunningList \<Rightarrow> [32, 36, 37] | SleepingList \<Rightarrow> [33, 34]
                  | WaitingList p \<Rightarrow> [])\<rparr>"

text \<open>
  \<open>vm_paging\<close> is \<open>vm_example\<close> with the cursor of the empty region table at slot 2.
\<close>

definition vm_paging :: vm_state where
  "vm_paging = vm_example\<lparr>next_memregion_idx := 2\<rparr>"

text \<open>
  \<open>vm_paged\<close> is \<open>vm_paging\<close> after \<open>new_pages(0x1002000, 4096)\<close>: the page is mapped
  on frame 1, the last free frame, and zeroed; slot 2 records the region and the cursor
  is at slot 3.
\<close>

definition vm_paged :: vm_state where
  "vm_paged = vm_paging\<lparr>frames := [255, 1, 2, 1], next_available_frame := - 1,
     pt := (pt vm_paging)(4 := (pt vm_paging 4)(2 := 0x1001007)),
     phys := (phys vm_paging)(0x1001000 := zero_page),
     memregions := (memregions vm_paging)(2 := 0x1002001),
     next_memregion_idx := 3\<rparr>"

text \<open>
  States of three runnable threads 32, 33 and 36 around mutex 7: \<open>k_mx rq nxt acq m\<close>
  has the run queue \<open>rq\<close>, the \<open>mutex_nextwait\<close> fields \<open>nxt\<close>, the \<open>acquired_lock\<close>
  fields \<open>acq\<close> and the mutex \<open>m\<close>. \<open>k_mx_fresh\<close> is the state after \<open>mutex_init\<close>,
  with thread 32 running.
\<close>

definition k_mx :: "nat list \<Rightarrow> (nat \<Rightarrow> nat option) \<Rightarrow> (nat \<Rightarrow> nat option) \<Rightarrow> mutex_t \<Rightarrow> kstate" where
  "k_mx rq nxt acq m = k_example\<lparr>
     threads := (\<lambda>t. (if t = 32 \<or> t = 33 \<or> t = 36
                       then thread_example THR_RUNNING (Some RunningList) 0
                       else thread_example THR_ZOMBIE None 0)
                      \<lparr>mutex_nextwait := nxt t, acquired_lock := acq t\<rparr>),
     mutexes := (\<lambda>i. if i = 7 then m else mutex_example),
     queues := (\<lambda>L. case L of RunningList \<Rightarrow> rq | SleepingList \<Rightarrow> []
                  | WaitingList p \<Rightarrow> [])\<rparr>"

definition k_mx_fresh :: kstate where
  "k_mx_fresh = k_mx [32, 33, 36] (\<lambda>t. None) (\<lambda>t. None) mutex_example"

section \<open>Word arithmetic of frame numbers\<close>

lemma drop12_bound: "unat (drop_bit 12 (w::u32)) < 2^20"
proof -
  have "unat w < 2 ^ 32" using unsigned_less [of w, where 'a = nat] by simp
  then have "unat w div 2 ^ 12 < 2 ^ 20"
    by (intro less_mult_imp_div_less) simp
  then show ?thesis by (simp add: unat_drop_bit_eq drop_bit_eq_div unat_div)
qed

lemma FRAME_ID_bound: "ums \<le> frame \<Longrightarrow> unat (FRAME_ID ums frame) < 2 ^ 20"
  using drop12_bound [of "frame - ums"] by (simp add: FRAME_ID_def not_less [symmetric])

lemma FRAME_ID_user: "ums \<le> frame \<Longrightarrow> FRAME_ID ums frame \<noteq> - 1"
proof
  assume "ums \<le> frame" "FRAME_ID ums frame = - 1"
  then have "unat (- 1 :: u32) < 2 ^ 20" using FRAME_ID_bound [of ums frame] by simp
  then show False by (simp add: unsigned_minus_1_eq_mask mask_eq_exp_minus_1)
qed

section \<open>Bits of a page-table entry\<close>

lemma getflag_bits:
  "PE_GETFLAG pe PTE_PRESENT = bit pe 0"
  "PE_GETFLAG pe PTE_READWRITE = bit pe 1"
  "PE_GETFLAG pe PTE_USER = bit pe 2"
  "PE_GETFLAG pe PTE_GLOBAL = bit pe 8"
  "PE_GETFLAG pe PTE_ZEROPAGE = bit pe 9"
  "PE_GETFLAG pe PTE_COPYONWRITE = bit pe 10"
  using and_exp_eq_0_iff_not_bit [of pe 0] and_exp_eq_0_iff_not_bit [of pe 1]
    and_exp_eq_0_iff_not_bit [of pe 2] and_exp_eq_0_iff_not_bit [of pe 8]
    and_exp_eq_0_iff_not_bit [of pe 9] and_exp_eq_0_iff_not_bit [of pe 10]
  by (simp_all add: PE_GETFLAG_def FLAGS_MASK_def flag_defs and.assoc)

lemma getflag_num:
  "PE_GETFLAG pe 1 = bit pe 0"
  "PE_GETFLAG pe 2 = bit pe 1"
  "PE_GETFLAG pe 4 = bit pe 2"
  "PE_GETFLAG pe 256 = bit pe 8"
  "PE_GETFLAG pe 512 = bit pe 9"
  "PE_GETFLAG pe 1024 = bit pe 10"
  using getflag_bits [of pe] by (simp_all add: flag_defs)

lemma addr_mask_not: "(0xFFFFF000 :: u32) = NOT (mask 12)"
  by (simp add: mask_eq_exp_minus_1)

lemma flags_mask_mask: "(0xFFF :: u32) = mask 12"
  by (simp add: mask_eq_exp_minus_1)

lemma aligned_addr: "(x::u32) mod PAGE_SIZE = 0 \<Longrightarrow> x AND ADDR_MASK = x"
proof -
  assume "x mod PAGE_SIZE = 0"
  then have "x mod 2 ^ 12 = 0" by (simp add: PAGE_SIZE_def)
  moreover have "x mod 2 ^ 12 = x AND mask 12" by (rule word_mod_2p_is_mask) simp
  ultimately have m: "x AND mask 12 = 0" by metis
  have "x AND NOT (mask 12) = x"
  proof (rule bit_eqI)
    fix n
    have "bit (x AND mask 12) n = False" using m by simp
    then show "bit (x AND NOT (mask 12)) n = bit x n"
      by (auto simp: bit_and_iff bit_not_iff bit_mask_iff dest: bit_imp_possible_bit)
  qed
  then show ?thesis by (simp add: ADDR_MASK_def addr_mask_not)
qed

lemma getaddr_setaddr: "PE_GETADDR (PE_SETADDR pe a) = a AND ADDR_MASK"
  unfolding PE_GETADDR_def PE_SETADDR_def ADDR_MASK_def FLAGS_MASK_def addr_mask_not flags_mask_mask
  by (rule bit_eqI) (auto simp: bit_and_iff bit_or_iff bit_not_iff bit_mask_iff)

lemma getaddr_setflag:
  "f AND ADDR_MASK = 0 \<Longrightarrow> PE_GETADDR (PE_SETFLAG pe f) = PE_GETADDR pe"
  by (simp add: PE_GETADDR_def PE_SETFLAG_def bit.conj_disj_distrib2)


lemma setaddr_bit: "n < 12 \<Longrightarrow> bit (PE_SETADDR pe a) n = bit pe n"
  unfolding PE_SETADDR_def ADDR_MASK_def FLAGS_MASK_def addr_mask_not flags_mask_mask
  by (auto simp: bit_and_iff bit_or_iff bit_not_iff bit_mask_iff dest: bit_imp_possible_bit)


section \<open>What the frame allocator leaves alone\<close>

lemma get_frame_fields:
  "u_get_frame ums frame s = Inr (r, s') \<Longrightarrow>
     pd s' = pd s \<and> pt s' = pt s \<and> zero_frame s' = zero_frame s \<and> phys s' = phys s
     \<and> cow_buffer s' = cow_buffer s \<and> heap s' = heap s \<and> memregions s' = memregions s
     \<and> next_memregion_idx s' = next_memregion_idx s"
  by (auto simp: u_get_frame_def Let_def split: if_splits)

lemma allocate_frame_fields:
  "allocate_frame ums s = Inr (r, s') \<Longrightarrow>
     pd s' = pd s \<and> pt s' = pt s \<and> zero_frame s' = zero_frame s \<and> phys s' = phys s
     \<and> cow_buffer s' = cow_buffer s \<and> heap s' = heap s \<and> memregions s' = memregions s
     \<and> next_memregion_idx s' = next_memregion_idx s"
  unfolding allocate_frame_def u_allocate_frame_def Let_def
  by (auto split: if_splits sum.splits dest: get_frame_fields)

lemma free_frame_fields:
  "free_frame ums frame s = Inr (r, s') \<Longrightarrow>
     pd s' = pd s \<and> pt s' = pt s \<and> zero_frame s' = zero_frame s \<and> phys s' = phys s
     \<and> cow_buffer s' = cow_buffer s \<and> heap s' = heap s \<and> memregions s' = memregions s
     \<and> next_memregion_idx s' = next_memregion_idx s"
  by (auto simp: free_frame_def Let_def split: if_splits)

section \<open>The example states, field by field\<close>

lemma vm_example_fields:
  "zero_frame vm_example = 0x5000"
  "pt vm_example i j = 0"
  "pd vm_example 4 = 0x7007"
  "frames vm_example = [255, 0, 2, 1]"
  "next_available_frame vm_example = 1"
  by (simp_all add: vm_example_def)

lemma offsets_example:
  "PDE_OFFSET 0x1000000 = 4" "PTE_OFFSET 0x1000000 = 0"
  "PDE_OFFSET 0x1001000 = 4" "PTE_OFFSET 0x1001000 = 1"
  by (simp_all add: PDE_OFFSET_def PTE_OFFSET_def DIR_MASK_def PAGE_MASK_def)

lemma get_pte_example:
  "get_pte 0x1000000 vm_example = Some (4, 0)"
  "get_pte 0x1001000 vm_example = Some (4, 1)"
  by (simp_all add: get_pte_def offsets_example vm_example_fields getflag_num flag_defs)

lemma fill_pte_example:
  "fill_pte MEM_TYPE_BSS 0 0 0x5000 0 = 0x5207"
  "fill_pte MEM_TYPE_DATA 0x1002000 0 0x5000 0 = 0x1002407"
  by (simp_all add: fill_pte_def pe_defs flag_defs)

section \<open>Frame allocator: saturation and kernel frames\<close>

text \<open>
  C7. Acquiring a frame whose counter is at the saturation value 255 fails with
  \<open>ERR_TOO_MANY_FRAME_OWNERS\<close> and returns the state as it was, so that counter and
  the rest of the frame table are unchanged; acquiring a frame of the kernel range
  (below \<open>USER_MEM_START\<close>) fails with \<open>ERR_KERNEL_FRAME\<close>. A frame is a page of
  physical memory, so its address is a multiple of \<open>PAGE_SIZE\<close>; \<open>_get_frame\<close>
  refuses any other address with \<open>-1\<close> before it looks at the range.
\<close>

theorem get_frame_saturated_or_kernel:
  "(frame mod PAGE_SIZE = 0 \<and> ums \<le> frame
      \<and> unat (FRAME_ID ums frame) < length (frames s)
      \<and> frames s ! unat (FRAME_ID ums frame) = 255
    \<longrightarrow> get_frame ums frame s = Inr (ERR_TOO_MANY_FRAME_OWNERS, s))
   \<and> (kframe mod PAGE_SIZE = 0 \<and> kframe < ums
    \<longrightarrow> get_frame ums kframe s = Inr (ERR_KERNEL_FRAME, s))"
proof (intro conjI impI)
  assume a: "frame mod PAGE_SIZE = 0 \<and> ums \<le> frame
      \<and> unat (FRAME_ID ums frame) < length (frames s)
      \<and> frames s ! unat (FRAME_ID ums frame) = 255"
  then have "FRAME_ID ums frame \<noteq> - 1"
    by (simp add: FRAME_ID_user)
  with a show "get_frame ums frame s = Inr (ERR_TOO_MANY_FRAME_OWNERS, s)"
    by (simp add: get_frame_def u_get_frame_def Let_def)
next
  assume "kframe mod PAGE_SIZE = 0 \<and> kframe < ums"
  then show "get_frame ums kframe s = Inr (ERR_KERNEL_FRAME, s)"
    by (simp add: get_frame_def u_get_frame_def FRAME_ID_def)
qed

theorem get_frame_saturated_or_kernel_witness:
  "get_frame 0x1000000 0x1000000 vm_example = Inr (ERR_TOO_MANY_FRAME_OWNERS, vm_example)
   \<and> frames vm_example ! unat (FRAME_ID 0x1000000 0x1000000) = 255
   \<and> get_frame 0x1000000 0x5000 vm_example = Inr (ERR_KERNEL_FRAME, vm_example)"
  using get_frame_saturated_or_kernel [of "0x1000000" "0x1000000" vm_example "0x5000"]
  by (simp add: PAGE_SIZE_def FRAME_ID_def vm_example_def)


section \<open>The sleep queue\<close>

lemma scan_back_dropWhile: "scan_back th w ys = dropWhile (\<lambda>c. wake (th c) > w) ys"
  by (induction ys) auto

lemma scan_back_split:
  assumes "scan_back th w (rev xs) = rest"
  shows "xs = rev rest @ drop (length rest) xs"
    and "\<forall>b \<in> set (drop (length rest) xs). wake (th b) > w"
    and "rest \<noteq> [] \<longrightarrow> wake (th (hd rest)) \<le> w"
proof -
  let ?P = "\<lambda>c. wake (th c) > w"
  have r: "rest = dropWhile ?P (rev xs)" using assms by (simp add: scan_back_dropWhile)
  have "rev xs = takeWhile ?P (rev xs) @ rest" using r by simp
  then have x: "xs = rev rest @ rev (takeWhile ?P (rev xs))"
    by (metis rev_append rev_rev_ident)
  then have d: "drop (length rest) xs = rev (takeWhile ?P (rev xs))"
    by (metis append_eq_conv_conj length_rev)
  show "xs = rev rest @ drop (length rest) xs" using x d by simp
  show "\<forall>b \<in> set (drop (length rest) xs). wake (th b) > w"
    unfolding d using set_takeWhileD by fastforce
  show "rest \<noteq> [] \<longrightarrow> wake (th (hd rest)) \<le> w"
    using r hd_dropWhile [of ?P "rev xs"] by (auto simp: not_less)
qed

lemma sorted_le_last:
  fixes f :: "nat \<Rightarrow> u32"
  shows "sorted (map f A) \<Longrightarrow> a \<in> set A \<Longrightarrow> f a \<le> f (last A)"
  by (induction A) auto

lemma sorted_insert_mid:
  fixes f :: "nat \<Rightarrow> u32"
  assumes "sorted (map f (A @ B))"
    and "\<forall>b \<in> set B. f t < f b"
    and "A \<noteq> [] \<longrightarrow> f (last A) \<le> f t"
  shows "sorted (map f (A @ t # B))"
proof -
  have sa: "sorted (map f A)" using assms(1) by (simp add: sorted_append)
  have "\<forall>a \<in> set A. f a \<le> f t"
  proof
    fix a assume a: "a \<in> set A"
    then have ne: "A \<noteq> []" by auto
    have "f a \<le> f (last A)" using sa a by (rule sorted_le_last)
    with assms(3) ne show "f a \<le> f t" by auto
  qed
  with assms show ?thesis
    by (auto simp: sorted_append less_imp_le)
qed


lemma sleep_inv_add_sorted:
  assumes wf: "sleep_wf st" and so: "sleep_sorted st"
    and nl: "t_list (threads st t) = None"
    and r: "thrlist_add_sorted (Some t) SleepingList st = (err, st')"
  shows "err = 0 \<and> sleep_wf st' \<and> sleep_sorted st' \<and> t \<in> set (queues st' SleepingList)
         \<and> wake (threads st' t) = wake (threads st t)"
proof -
  let ?xs = "queues st SleepingList"
  let ?f = "\<lambda>t. wake (threads st t)"
  let ?rest = "scan_back (threads st) (wake (threads st t)) (rev ?xs)"
  have tn: "t \<notin> set ?xs" using wf nl by (auto simp: sleep_wf_def)
  have dx: "distinct ?xs" using wf by (simp add: sleep_wf_def)
  have sx: "sorted (map ?f ?xs)" using so by (simp add: sleep_sorted_def)
  note sp = scan_back_split [OF refl, where th = "threads st" and w = "wake (threads st t)"
      and xs = ?xs]
  have "\<exists>A B. ?xs = A @ B \<and> err = 0
          \<and> st' = upd_thread t (\<lambda>c. c\<lparr>t_list := Some SleepingList\<rparr>)
                    (upd_list SleepingList (A @ t # B) st)
          \<and> sorted (map ?f (A @ t # B))"
  proof (cases "?xs = []")
    case True
    with r nl show ?thesis
      by (auto simp: thrlist_add_sorted_def thrlist_add_head_def)
  next
    case ne: False
    show ?thesis
    proof (cases ?rest)
      case Nil
      then have "\<forall>b \<in> set ?xs. ?f t < ?f b" using sp(2) by simp
      then have "sorted (map ?f ([] @ t # ?xs))"
        using sx by (intro sorted_insert_mid) auto
      moreover have "err = 0 \<and> st' = upd_thread t (\<lambda>c. c\<lparr>t_list := Some SleepingList\<rparr>)
                    (upd_list SleepingList ([] @ t # ?xs) st)"
        using r nl ne Nil by (auto simp: thrlist_add_sorted_def thrlist_add_head_def)
      ultimately show ?thesis by (intro exI [of _ "[]"] exI [of _ ?xs]) simp
    next
      case (Cons c before)
      have cw: "?f c \<le> ?f t" using sp(3) Cons by simp
      show ?thesis
      proof (cases "c = last ?xs")
        case True
        have "\<forall>a \<in> set ?xs. ?f a \<le> ?f t"
          using sorted_le_last [OF sx] cw True by (metis order_trans)
        then have "sorted (map ?f (?xs @ [t]))"
          using sx by (auto simp: sorted_append)
        moreover have "err = 0 \<and> st' = upd_thread t (\<lambda>c. c\<lparr>t_list := Some SleepingList\<rparr>)
                    (upd_list SleepingList (?xs @ t # []) st)"
          using r nl ne Cons True by (auto simp: thrlist_add_sorted_def thrlist_add_tail_def)
        ultimately show ?thesis by (intro exI [of _ ?xs] exI [of _ "[]"]) simp
      next
        case False
        let ?A = "rev (c # before)" and ?B = "drop (length (c # before)) ?xs"
        have x: "?xs = ?A @ ?B" using sp(1) Cons by simp
        have "sorted (map ?f (?A @ ?B))" using sx x by simp
        moreover have "\<forall>b \<in> set ?B. ?f t < ?f b" using sp(2) Cons by simp
        moreover have "?A \<noteq> [] \<longrightarrow> ?f (last ?A) \<le> ?f t" using cw by simp
        ultimately have "sorted (map ?f (?A @ t # ?B))" by (rule sorted_insert_mid)
        moreover have "err = 0 \<and> st' = upd_thread t (\<lambda>c. c\<lparr>t_list := Some SleepingList\<rparr>)
                    (upd_list SleepingList (?A @ t # ?B) st)"
          using r nl ne Cons False by (auto simp: thrlist_add_sorted_def)
        ultimately show ?thesis using x by blast
      qed
    qed
  qed
  then obtain A B where ab: "?xs = A @ B" "err = 0"
      "st' = upd_thread t (\<lambda>c. c\<lparr>t_list := Some SleepingList\<rparr>)
               (upd_list SleepingList (A @ t # B) st)"
      "sorted (map ?f (A @ t # B))" by blast
  have l': "queues st' SleepingList = A @ t # B"
    using ab(3) by (simp add: upd_thread_def upd_list_def)
  have w': "\<And>u. wake (threads st' u) = wake (threads st u)"
    using ab(3) by (simp add: upd_thread_def upd_list_def)
  have tl': "\<And>u. t_list (threads st' u) = (if u = t then Some SleepingList else t_list (threads st u))"
    using ab(3) by (simp add: upd_thread_def upd_list_def)
  have "sleep_sorted st'" using ab(4) by (simp add: sleep_sorted_def l' w')
  moreover have "sleep_wf st'"
    using wf tn dx ab(1) by (auto simp: sleep_wf_def l' tl')
  ultimately show ?thesis using ab(2) l' w' by simp
qed

lemma sleep_inv_remove:
  assumes wf: "sleep_wf st" and so: "sleep_sorted st"
    and r: "thrlist_remove (Some t) st = (err, st')"
  shows "0 \<le> err \<and> sleep_wf st' \<and> sleep_sorted st' \<and> t_list (threads st' t) = None"
proof (cases "t_list (threads st t)")
  case None
  with r wf so show ?thesis by (auto simp: thrlist_remove_def)
next
  case (Some L)
  have st': "st' = upd_thread t (\<lambda>c. c\<lparr>t_list := None\<rparr>) (upd_list L (remove1 t (queues st L)) st)"
    and e: "err = 0"
    using r Some by (auto simp: thrlist_remove_def)
  have w': "\<And>u. wake (threads st' u) = wake (threads st u)"
    using st' by (simp add: upd_thread_def upd_list_def)
  have tl': "\<And>u. t_list (threads st' u) = (if u = t then None else t_list (threads st u))"
    using st' by (simp add: upd_thread_def upd_list_def)
  show ?thesis
  proof (cases "L = SleepingList")
    case True
    have l': "queues st' SleepingList = remove1 t (queues st SleepingList)"
      using st' True by (simp add: upd_thread_def upd_list_def)
    have "sorted (map (\<lambda>t. wake (threads st t)) (remove1 t (queues st SleepingList)))"
      using so unfolding sleep_sorted_def by (rule sorted_map_remove1)
    then have "sleep_sorted st'" by (simp add: sleep_sorted_def l' w')
    moreover have "sleep_wf st'"
      using wf by (auto simp: sleep_wf_def l' tl')
    ultimately show ?thesis using e tl' by simp
  next
    case False
    have l': "queues st' SleepingList = queues st SleepingList"
      using st' False by (simp add: upd_thread_def upd_list_def)
    have "sleep_sorted st'" using so by (simp add: sleep_sorted_def l' w')
    moreover have "sleep_wf st'"
      using wf Some False by (auto simp: sleep_wf_def l' tl')
    ultimately show ?thesis using e tl' by simp
  qed
qed


lemma sleep_inv_set_sleeping:
  assumes wf: "sleep_wf st" and so: "sleep_sorted st"
    and r: "set_sleeping (Some t) sleep st = (err, st')"
  shows "err = 0 \<and> sleep_wf st' \<and> sleep_sorted st' \<and> t \<in> set (queues st' SleepingList)
         \<and> wake (threads st' t) = get_time st + sleep"
proof -
  obtain e1 st1 where rm: "thrlist_remove (Some t) st = (e1, st1)" by fastforce
  note i1 = sleep_inv_remove [OF wf so rm]
  let ?st3 = "upd_thread t (\<lambda>c. c\<lparr>t_state := THR_SLEEPING\<rparr>)
               (upd_thread t (\<lambda>c. c\<lparr>wake := num_ticks st1 + sleep\<rparr>)
                 (upd_thread t (\<lambda>c. c\<lparr>t_state := THR_ZOMBIE\<rparr>) st1))"
  have r3: "thrlist_add_sorted (Some t) SleepingList ?st3 = (err, st')"
    using r rm i1 by (simp add: set_sleeping_def unset_state_def get_time_def Let_def upd_thread_def)
  have tn: "t \<notin> set (queues st1 SleepingList)" using i1 by (auto simp: sleep_wf_def)
  have l3: "queues ?st3 = queues st1" by (simp add: upd_thread_def)
  have t3: "\<And>u. t_list (threads ?st3 u) = t_list (threads st1 u)" by (simp add: upd_thread_def)
  have w3: "\<And>u. u \<noteq> t \<Longrightarrow> wake (threads ?st3 u) = wake (threads st1 u)"
    by (simp add: upd_thread_def)
  have wf3: "sleep_wf ?st3" using i1 by (simp add: sleep_wf_def l3 t3)
  have meq: "map (\<lambda>u. wake (threads ?st3 u)) (queues st1 SleepingList)
      = map (\<lambda>u. wake (threads st1 u)) (queues st1 SleepingList)"
  proof (intro map_cong refl)
    fix x assume "x \<in> set (queues st1 SleepingList)"
    then have "x \<noteq> t" using tn by auto
    then show "wake (threads ?st3 x) = wake (threads st1 x)" by (rule w3)
  qed
  have so3: "sleep_sorted ?st3"
    unfolding sleep_sorted_def l3 meq using i1 unfolding sleep_sorted_def by blast
  have nl3: "t_list (threads ?st3 t) = None" using i1 by (simp add: t3)
  have nt: "num_ticks st1 = num_ticks st"
    using rm by (auto simp: thrlist_remove_def upd_thread_def upd_list_def split: option.splits)
  have "wake (threads ?st3 t) = get_time st + sleep"
    by (simp add: upd_thread_def get_time_def nt)
  with sleep_inv_add_sorted [OF wf3 so3 nl3 r3] show ?thesis by simp
qed

text \<open>
  C8. The sleep queue stays sorted non-decreasing by wake time. From a well-formed
  and sorted sleep queue, \<open>set_sleeping\<close> of any thread and any duration succeeds,
  leaves the queue well formed and sorted, and has put the thread in it with
  \<open>wake\<close> equal to the current tick count plus the duration; the insertion is the
  one of \<open>thrlist_add_sorted\<close>. Removing any thread with \<open>thrlist_remove\<close>
  leaves the queue well formed and sorted as well.
\<close>

theorem sleep_queue_sorted:
  assumes "sleep_wf st" and "sleep_sorted st"
  shows "fst (set_sleeping (Some t) sleep st) = 0
       \<and> sleep_wf (snd (set_sleeping (Some t) sleep st))
       \<and> sleep_sorted (snd (set_sleeping (Some t) sleep st))
       \<and> t \<in> set (queues (snd (set_sleeping (Some t) sleep st)) SleepingList)
       \<and> wake (threads (snd (set_sleeping (Some t) sleep st)) t) = get_time st + sleep
       \<and> sleep_wf (snd (thrlist_remove (Some u) st))
       \<and> sleep_sorted (snd (thrlist_remove (Some u) st))"
  using sleep_inv_set_sleeping [OF assms, of t sleep] sleep_inv_remove [OF assms, of u]
  by (metis prod.collapse)

lemma k_example_wf: "sleep_wf k_example"
  by (auto simp: sleep_wf_def k_example_def thread_example_def)

lemma k_example_sorted: "sleep_sorted k_example"
  by (simp add: sleep_sorted_def k_example_def thread_example_def)

theorem sleep_queue_sorted_witness:
  "sleep_wf k_example \<and> sleep_sorted k_example
   \<and> sleep_sorted (snd (set_sleeping (Some 32) 100 k_example))
   \<and> queues (snd (set_sleeping (Some 32) 100 k_example)) SleepingList = [33, 32, 34]
   \<and> sleep_sorted (snd (thrlist_remove (Some 33) k_example))"
proof -
  have "queues (snd (set_sleeping (Some 32) 100 k_example)) SleepingList = [33, 32, 34]"
    by (simp add: set_sleeping_def unset_state_def thrlist_remove_def thrlist_add_sorted_def
        upd_thread_def upd_list_def get_time_def k_example_def thread_example_def Let_def)
  then show ?thesis
    using sleep_queue_sorted [OF k_example_wf k_example_sorted, of 32 100 33]
      k_example_wf k_example_sorted by simp
qed

section \<open>\<open>sleep\<close> with a zero or negative duration\<close>

text \<open>
  C9. \<open>sleep(0)\<close> returns 0 at once and \<open>sleep\<close> of a negative number of ticks
  returns \<open>ERR_NEGATIVE_SLEEP\<close>; both return the kernel state as it was, so the
  caller is not put on the sleep queue and the queue is unchanged.
\<close>

theorem sleep_zero_or_negative:
  "u_sleep 0 st = Inr (Return 0, st)
   \<and> (ticks < 0 \<longrightarrow> u_sleep ticks st = Inr (Return ERR_NEGATIVE_SLEEP, st))"
  by (simp add: u_sleep_def)

theorem sleep_zero_or_negative_witness:
  "u_sleep 0 k_example = Inr (Return 0, k_example)
   \<and> u_sleep (- 3) k_example = Inr (Return ERR_NEGATIVE_SLEEP, k_example)
   \<and> queues k_example SleepingList = [33, 34]"
  using sleep_zero_or_negative [of k_example "- 3"] by (simp add: k_example_def)


section \<open>Entries made by \<open>create_page\<close>\<close>

lemma give_back_nonzero: "code \<noteq> 0 \<Longrightarrow> give_back ums nf code s \<noteq> Inr (0, s')"
  by (auto simp: give_back_def split: sum.splits)

lemma create_page_success:
  assumes "create_page ums va type ref_frame s = Inr (0, s')"
  shows "\<exists>new_frame p0. pt s' (PDE_OFFSET va) (PTE_OFFSET va)
            = fill_pte type ref_frame new_frame (zero_frame s) p0"
    and "ref_frame \<noteq> 0 \<longrightarrow> ref_frame mod PAGE_SIZE = 0"
proof -
  from assms have ok: "va mod PAGE_SIZE = 0" "\<not> va < ums"
      "\<not> (ref_frame \<noteq> 0 \<and> ref_frame mod PAGE_SIZE \<noteq> 0)"
    by (auto simp: create_page_def err_defs split: if_splits)
  then show "ref_frame \<noteq> 0 \<longrightarrow> ref_frame mod PAGE_SIZE = 0" by blast
  let ?al = "if type \<noteq> MEM_TYPE_BSS \<and> ref_frame = 0 then allocate_frame ums s else Inr (0, s)"
  from assms ok obtain nf s1 where al: "?al = Inr (nf, s1)"
    by (auto simp: create_page_def err_defs split: if_splits sum.splits)
  have z1: "zero_frame s1 = zero_frame s"
    using al allocate_frame_fields [of ums s nf s1] by (auto split: if_splits)
  show "\<exists>new_frame p0. pt s' (PDE_OFFSET va) (PTE_OFFSET va)
            = fill_pte type ref_frame new_frame (zero_frame s) p0"
  proof (cases "get_pte va s1")
    case None
    obtain ptr s2 where sm: "smemalign s1 = (ptr, s2)" by fastforce
    have z2: "zero_frame s2 = zero_frame s1"
      using sm by (auto simp: smemalign_def split: list.splits)
    from assms ok al None sm have "ptr \<noteq> 0"
      using give_back_nonzero [of ERR_MALLOC_FAIL ums nf s2 s']
      by (auto simp: create_page_def err_defs split: if_splits)
    with assms ok al None sm z1 z2 show ?thesis
      by (auto simp: create_page_def err_defs Let_def set_pte_def pte_at_def split: if_splits
          intro!: exI)
  next
    case (Some l)
    then have l: "l = (PDE_OFFSET va, PTE_OFFSET va)"
      by (auto simp: get_pte_def split: if_splits)
    from assms ok al Some have "\<not> PE_GETFLAG (pte_at s1 l) PTE_PRESENT"
      using give_back_nonzero [of ERR_PAGE_ALREADY_PRESENT ums nf s1 s']
      by (auto simp: create_page_def err_defs split: if_splits)
    with assms ok al Some l z1 show ?thesis
      by (auto simp: create_page_def err_defs Let_def set_pte_def pte_at_def split: if_splits
          intro!: exI)
  qed
qed

lemma fill_pte_addr:
  "PE_GETADDR (fill_pte type r n zf p0) =
     (if type = MEM_TYPE_BSS then zf else if r \<noteq> 0 then r else n) AND ADDR_MASK"
  by (cases type) (simp_all add: fill_pte_def Let_def getaddr_setaddr getaddr_setflag
      flag_defs ADDR_MASK_def)

lemma fill_pte_flags:
  "PE_GETFLAG (fill_pte type r n zf p0) PTE_PRESENT"
  "PE_GETFLAG (fill_pte type r n zf p0) PTE_USER"
  "PE_GETFLAG (fill_pte type r n zf p0) PTE_READWRITE
     = (bit p0 1 \<or> (type \<noteq> MEM_TYPE_TEXT \<and> type \<noteq> MEM_TYPE_RODATA))"
  "PE_GETFLAG (fill_pte type r n zf p0) PTE_ZEROPAGE = (bit p0 9 \<or> type = MEM_TYPE_BSS)"
  "PE_GETFLAG (fill_pte type r n zf p0) PTE_COPYONWRITE
     = (bit p0 10 \<or> (type \<noteq> MEM_TYPE_BSS \<and> r \<noteq> 0))"
  "PE_GETFLAG (fill_pte type r n zf p0) PTE_GLOBAL = bit p0 8"
  by (cases type; simp add: fill_pte_def Let_def getflag_num PE_SETFLAG_def flag_defs
      bit_or_iff setaddr_bit)+

text \<open>
  C1. What the code does where the claim asks for read-only entries. After every
  successful \<open>create_page\<close> of kind Bss the entry points at the zero frame and
  has ZeroPage set, and after every successful \<open>create_page\<close> of another kind
  with a reference frame the entry points at that frame and has CopyOnWrite set, as
  the claim says; but ReadWrite is set in the Bss entry, and in the CopyOnWrite
  entry of every writable kind, by the final \<open>switch\<close> on the kind.
\<close>

theorem create_page_shared_entries_writable:
  assumes "create_page ums va type ref_frame s = Inr (0, s')"
  shows "(type = MEM_TYPE_BSS \<longrightarrow>
            PE_GETADDR (pt s' (PDE_OFFSET va) (PTE_OFFSET va)) = PE_GETADDR (zero_frame s)
          \<and> PE_GETFLAG (pt s' (PDE_OFFSET va) (PTE_OFFSET va)) PTE_ZEROPAGE
          \<and> PE_GETFLAG (pt s' (PDE_OFFSET va) (PTE_OFFSET va)) PTE_READWRITE)
       \<and> (type \<noteq> MEM_TYPE_BSS \<and> ref_frame \<noteq> 0 \<longrightarrow>
            PE_GETADDR (pt s' (PDE_OFFSET va) (PTE_OFFSET va)) = ref_frame
          \<and> PE_GETFLAG (pt s' (PDE_OFFSET va) (PTE_OFFSET va)) PTE_COPYONWRITE
          \<and> (type \<noteq> MEM_TYPE_TEXT \<and> type \<noteq> MEM_TYPE_RODATA \<longrightarrow>
               PE_GETFLAG (pt s' (PDE_OFFSET va) (PTE_OFFSET va)) PTE_READWRITE))"
proof -
  from create_page_success(1) [OF assms] obtain nf p0 where
    e: "pt s' (PDE_OFFSET va) (PTE_OFFSET va) = fill_pte type ref_frame nf (zero_frame s) p0"
    by blast
  have al: "ref_frame \<noteq> 0 \<longrightarrow> ref_frame mod PAGE_SIZE = 0"
    by (rule create_page_success(2) [OF assms])
  show ?thesis
    unfolding e using al
    by (auto simp: fill_pte_addr fill_pte_flags PE_GETADDR_def [of "zero_frame s"] aligned_addr)
qed



theorem create_page_shared_entries_writable_witness:
  "create_page 0x1000000 0x1000000 MEM_TYPE_BSS 0 vm_example
     = Inr (0, set_pte (4, 0) 0x5207 vm_example)
   \<and> PE_GETFLAG (pt (set_pte (4, 0) 0x5207 vm_example) 4 0) PTE_READWRITE
   \<and> create_page 0x1000000 0x1001000 MEM_TYPE_DATA 0x1002000 vm_example
     = Inr (0, set_pte (4, 1) 0x1002407 vm_example)
   \<and> PE_GETFLAG (pt (set_pte (4, 1) 0x1002407 vm_example) 4 1) PTE_READWRITE"
proof -
  have a: "create_page 0x1000000 0x1000000 MEM_TYPE_BSS 0 vm_example
     = Inr (0, set_pte (4, 0) 0x5207 vm_example)"
    by (simp add: create_page_def PAGE_SIZE_def get_pte_example fill_pte_example
        vm_example_fields pte_at_def getflag_num flag_defs)
  have b: "create_page 0x1000000 0x1001000 MEM_TYPE_DATA 0x1002000 vm_example
     = Inr (0, set_pte (4, 1) 0x1002407 vm_example)"
    by (simp add: create_page_def PAGE_SIZE_def get_pte_example fill_pte_example
        vm_example_fields pte_at_def getflag_num flag_defs)
  show ?thesis
    using create_page_shared_entries_writable [OF a] create_page_shared_entries_writable [OF b]
      a b by (simp add: offsets_example)
qed

section \<open>Frame addresses and frame numbers\<close>

lemma aligned_unat: "(x mod PAGE_SIZE = 0) = (unat x mod 4096 = 0)"
proof -
  have "unat (x mod PAGE_SIZE) = unat x mod 4096"
    by (simp add: unat_mod PAGE_SIZE_def)
  then show ?thesis by (metis unat_eq_0)
qed

lemma FRAME_ADDR_unat:
  assumes "unat ums + (n + 1) * 4096 \<le> 2 ^ 32"
  shows "unat (FRAME_ADDR ums (int n)) = unat ums + n * 4096"
proof -
  have n: "n < 2 ^ 20" using assms by simp
  have "unat (of_nat n :: u32) = n" using n by (simp add: unat_of_nat)
  then have "unat (push_bit 12 (of_nat n :: u32)) = n * 4096"
    using n by (simp add: push_bit_eq_mult unat_word_ariths)
  then show ?thesis using assms
    by (simp add: FRAME_ADDR_def unat_word_ariths)
qed

lemma FRAME_ADDR_user:
  assumes "unat ums + (n + 1) * 4096 \<le> 2 ^ 32"
  shows "ums \<le> FRAME_ADDR ums (int n)"
  using FRAME_ADDR_unat [OF assms] by (simp add: word_le_nat_alt)

lemma FRAME_ID_ADDR:
  assumes "unat ums + (n + 1) * 4096 \<le> 2 ^ 32"
  shows "unat (FRAME_ID ums (FRAME_ADDR ums (int n))) = n"
proof -
  have u: "unat (FRAME_ADDR ums (int n) - ums) = n * 4096"
    using FRAME_ADDR_unat [OF assms] FRAME_ADDR_user [OF assms]
    by (simp add: unat_sub)
  have "unat (drop_bit 12 (FRAME_ADDR ums (int n) - ums)) = n"
    using u by (simp add: unat_drop_bit_eq drop_bit_eq_div unat_div)
  then show "unat (FRAME_ID ums (FRAME_ADDR ums (int n))) = n"
    using FRAME_ADDR_user [OF assms] by (simp add: FRAME_ID_def not_less [symmetric])
qed

lemma FRAME_ADDR_aligned:
  assumes "ums mod PAGE_SIZE = 0" and "unat ums + (n + 1) * 4096 \<le> 2 ^ 32"
  shows "FRAME_ADDR ums (int n) mod PAGE_SIZE = 0"
  using assms(1) FRAME_ADDR_unat [OF assms(2)] by (simp add: aligned_unat)

lemma FRAME_ADDR_nonnull:
  assumes "ums \<noteq> 0" and "unat ums + (n + 1) * 4096 \<le> 2 ^ 32"
  shows "FRAME_ADDR ums (int n) \<noteq> 0"
proof
  assume "FRAME_ADDR ums (int n) = 0"
  then have "unat ums + n * 4096 = 0" using FRAME_ADDR_unat [OF assms(2)] by simp
  then show False using assms(1) by (simp add: unat_eq_0)
qed




lemma masked_aligned: "(x AND ADDR_MASK) mod PAGE_SIZE = 0"
proof -
  have "(x AND NOT (mask 12)) mod 2 ^ 12 = (x AND NOT (mask 12)) AND mask 12"
    by (rule word_mod_2p_is_mask) simp
  also have "\<dots> = 0" by (simp add: and.assoc)
  finally show ?thesis by (simp add: ADDR_MASK_def addr_mask_not PAGE_SIZE_def)
qed




lemma allocate_fresh:
  assumes al: "ums mod PAGE_SIZE = 0" and nz: "ums \<noteq> 0"
    and fit: "unat ums + length (frames s) * 4096 \<le> 2 ^ 32"
    and naf: "next_available_frame s = int n" and n: "n < length (frames s)"
    and c: "frames s ! n \<noteq> 255"
  shows "u_allocate_frame ums s =
           Inr (FRAME_ADDR ums (int n),
                s\<lparr>frames := (frames s)[n := frames s ! n + 1],
                  next_available_frame :=
                    next_free ((frames s)[n := frames s ! n + 1]) (length (frames s)) n\<rparr>)"
    and "FRAME_ADDR ums (int n) \<noteq> 0"
proof -
  have fit': "unat ums + (n + 1) * 4096 \<le> 2 ^ 32" using fit n by simp
  note fa = FRAME_ADDR_aligned [OF al fit'] FRAME_ADDR_user [OF fit'] FRAME_ID_ADDR [OF fit']
  have id: "FRAME_ID ums (FRAME_ADDR ums (int n)) = word_of_int (int n)"
  proof -
    have "word_of_int (int (unat (FRAME_ID ums (FRAME_ADDR ums (int n))))) =
        FRAME_ID ums (FRAME_ADDR ums (int n))" by simp
    then show ?thesis by (simp only: fa(3))
  qed
  show "FRAME_ADDR ums (int n) \<noteq> 0" using nz fit' by (rule FRAME_ADDR_nonnull)
  have nk: "FRAME_ID ums (FRAME_ADDR ums (int n)) \<noteq> - 1"
    using fa(2) by (rule FRAME_ID_user)
  have g: "u_get_frame ums (FRAME_ADDR ums (int n)) s =
      Inr (0, s\<lparr>frames := (frames s)[n := frames s ! n + 1],
                  next_available_frame :=
                    next_free ((frames s)[n := frames s ! n + 1]) (length (frames s)) n\<rparr>)"
    unfolding u_get_frame_def Let_def fa(3) naf
    using fa(1) nk n c id by simp
  have "next_available_frame s \<noteq> - 1" using naf by simp
  then show "u_allocate_frame ums s =
           Inr (FRAME_ADDR ums (int n),
                s\<lparr>frames := (frames s)[n := frames s ! n + 1],
                  next_available_frame :=
                    next_free ((frames s)[n := frames s ! n + 1]) (length (frames s)) n\<rparr>)"
    unfolding u_allocate_frame_def Let_def naf g by (simp only: if_False sum.case prod.case simp_thms)
qed


section \<open>Copy on write\<close>



lemma setaddr_flags:
  "PE_GETFLAG (PE_SETADDR e a) PTE_COPYONWRITE = PE_GETFLAG e PTE_COPYONWRITE"
  "PE_GETFLAG (PE_SETADDR e a) PTE_READWRITE = PE_GETFLAG e PTE_READWRITE"
  by (simp_all add: getflag_bits setaddr_bit)

















section \<open>\<open>wait\<close>\<close>

lemma set_waiting_codes:
  "set_waiting thread st = (err, st') \<Longrightarrow> err < 0 \<Longrightarrow>
     err = ERR_ARG_NULL \<or> err = ERR_NO_PROCESS \<or> err = ERR_THR_IN_LIST"
  by (auto simp: set_waiting_def unset_state_def thrlist_remove_def thrlist_add_tail_def
      split: option.splits prod.splits if_splits)

lemma destroy_process_exited:
  assumes "p_state (procs st c) = EXITED"
  shows "fst (destroy_process (Some c) st) = 0"
    and "p_state (procs (snd (destroy_process (Some c) st)) c) = BURIED"
    and "parent (procs st c) = Some q \<Longrightarrow> q \<noteq> c \<Longrightarrow>
           kids (procs (snd (destroy_process (Some c) st)) q) = remove1 c (kids (procs st q))
         \<and> children (procs (snd (destroy_process (Some c) st)) q) = children (procs st q) - 1"
    and "pthreads (procs (snd (destroy_process (Some c) st)) c) = []"
    and "set (thrhash (snd (destroy_process (Some c) st))) = set (thrhash st) - set (pthreads (procs st c))"
  using assms
  by (auto simp: destroy_process_def Let_def upd_proc_def split: option.splits)

lemma first_exited_Some:
  "first_exited ps cs = Some c \<Longrightarrow> c \<in> set cs \<and> p_state (ps c) = EXITED"
  by (induction cs) (auto split: if_splits)

lemma wait_loop_reap:
  assumes ch: "children (procs st task) \<noteq> 0"
    and fe: "first_exited (procs st) (kids (procs st task)) = Some c"
    and ot: "original_tid (procs st c) \<noteq> - 1"
  shows "wait_loop self task status_ptr st =
           (WReturn (original_tid (procs st c))
              (if status_ptr \<noteq> 0 then Some (exit_status (procs st c)) else None),
            snd (destroy_process (Some c) st))"
proof -
  have ex: "p_state (procs st c) = EXITED" using first_exited_Some [OF fe] by simp
  have ec: "exited_child (Some task) st = Some c" using ch fe by (simp add: exited_child_def)
  obtain derr st1 where d: "destroy_process (Some c) st = (derr, st1)" by fastforce
  have "derr = 0" using destroy_process_exited(1) [OF ex] d by simp
  then show ?thesis using ch ot ec d by (simp add: wait_loop_def Let_def)
qed

lemma wait_loop_codes:
  assumes "wait_loop self task status_ptr st = (WReturn r x, st')"
    and "\<forall>c \<in> set (kids (procs st task)). - 1 \<le> original_tid (procs st c)"
  shows "r \<noteq> ERR_NO_CHILDREN \<and> r \<noteq> ERR_WAIT_FULL"
proof (cases "exited_child (Some task) st")
  case None
  with assms(1) show ?thesis
    by (auto simp: wait_loop_def err_defs split: if_splits prod.splits
        dest!: set_waiting_codes)
next
  case (Some c)
  then have fe: "first_exited (procs st) (kids (procs st task)) = Some c"
    by (auto simp: exited_child_def split: if_splits)
  then have c: "c \<in> set (kids (procs st task))" "p_state (procs st c) = EXITED"
    using first_exited_Some by auto
  then have o: "- 1 \<le> original_tid (procs st c)" using assms(2) by auto
  have d: "fst (destroy_process (Some c) st) = 0" using c(2) by (rule destroy_process_exited(1))
  show ?thesis using assms(1) Some o d
    by (auto simp: wait_loop_def Let_def err_defs split: if_splits prod.splits)
qed


lemma k_wait_fields:
  "get_running k_wait = Some 32"
  "t_process (threads k_wait 32) = Some 5"
  "children (procs k_wait 5) = 2"
  "kids (procs k_wait 5) = [3, 2]"
  "queues k_wait (WaitingList 5) = []"
  "p_state (procs k_wait 2) = EXITED" "p_state (procs k_wait 3) = RUNNING"
  "original_tid (procs k_wait 2) = 40" "exit_status (procs k_wait 2) = 7"
  "parent (procs k_wait 2) = Some 5"
  by (simp_all add: k_wait_def k_example_def get_running_def thread_example_def
      process_example_def)

lemma k_waitfull_fields:
  "get_running k_waitfull = Some 32"
  "t_process (threads k_waitfull 32) = Some 5"
  "children (procs k_waitfull 5) = 1"
  "kids (procs k_waitfull 5) = [2]"
  "queues k_waitfull (WaitingList 5) = [35]"
  "p_state (procs k_waitfull 2) = EXITED"
  by (simp_all add: k_waitfull_def k_example_def get_running_def thread_example_def
      process_example_def)

text \<open>
  C3, as amended. Let the calling thread be the head of the run queue, in process
  \<open>task\<close>, with a null or writable status pointer.
  \<^item> With no children \<open>wait\<close> returns \<open>ERR_NO_CHILDREN\<close>.
  \<^item> With children, and at least as many threads already waiting as there are
    children, it returns \<open>ERR_WAIT_FULL\<close>, whether or not a child has exited: the
    test comes before the search for an exited child.
  \<^item> With more children than waiting threads and an exited child, it takes the
    first exited child \<open>c\<close> of the chain; if \<open>c\<close> has an original thread the call
    stores the exit status of \<open>c\<close> (when the status pointer is not null),
    destroys \<open>c\<close> (which is then Buried, unlinked from the chain, and counted out of
    \<open>children\<close>) and returns the original thread's tid.
  \<^item> When no child has an original tid below -1 (a tid that is returned is then
    not one of the error codes), \<open>ERR_NO_CHILDREN\<close> is returned only with no
    children at all, and \<open>ERR_WAIT_FULL\<close> only with children and at least as many
    waiting threads.
\<close>

theorem wait_results:
  assumes self: "get_running st = Some self"
    and task: "t_process (threads st self) = Some task"
    and ok: "status_ptr = 0 \<or> status_ok"
  shows
    "(children (procs st task) = 0 \<longrightarrow>
        u_wait status_ptr status_ok st = Inr (WReturn ERR_NO_CHILDREN None, st))
   \<and> (children (procs st task) \<noteq> 0
        \<and> children (procs st task) \<le> of_nat (length (queues st (WaitingList task))) \<longrightarrow>
        u_wait status_ptr status_ok st = Inr (WReturn ERR_WAIT_FULL None, st))
   \<and> (children (procs st task) \<noteq> 0
        \<and> \<not> children (procs st task) \<le> of_nat (length (queues st (WaitingList task)))
        \<and> first_exited (procs st) (kids (procs st task)) = Some c
        \<and> original_tid (procs st c) \<noteq> - 1 \<longrightarrow>
        u_wait status_ptr status_ok st =
          Inr (WReturn (original_tid (procs st c))
                 (if status_ptr \<noteq> 0 then Some (exit_status (procs st c)) else None),
               snd (destroy_process (Some c) st))
        \<and> p_state (procs (snd (destroy_process (Some c) st)) c) = BURIED
        \<and> (parent (procs st c) = Some task \<and> task \<noteq> c \<longrightarrow>
             kids (procs (snd (destroy_process (Some c) st)) task)
               = remove1 c (kids (procs st task))
           \<and> children (procs (snd (destroy_process (Some c) st)) task)
               = children (procs st task) - 1))
   \<and> ((\<forall>k \<in> set (kids (procs st task)). - 1 \<le> original_tid (procs st k)) \<longrightarrow>
        (\<forall>x st'. u_wait status_ptr status_ok st = Inr (WReturn ERR_NO_CHILDREN x, st') \<longrightarrow>
            children (procs st task) = 0)
      \<and> (\<forall>x st'. u_wait status_ptr status_ok st = Inr (WReturn ERR_WAIT_FULL x, st') \<longrightarrow>
            children (procs st task) \<noteq> 0
          \<and> children (procs st task) \<le> of_nat (length (queues st (WaitingList task)))))"
proof -
  have gs: "get_self st = Inr self" using self by (simp add: get_self_def)
  have nk: "\<not> (status_ptr \<noteq> 0 \<and> \<not> status_ok)" using ok by blast
  have u: "u_wait status_ptr status_ok st =
      (if children (procs st task) = 0 then Inr (WReturn ERR_NO_CHILDREN None, st)
       else if children (procs st task) \<le> of_nat (length (queues st (WaitingList task)))
       then Inr (WReturn ERR_WAIT_FULL None, st)
       else Inr (wait_loop self task status_ptr st))"
    unfolding u_wait_def using gs task nk by auto
  have A: "children (procs st task) = 0 \<longrightarrow>
        u_wait status_ptr status_ok st = Inr (WReturn ERR_NO_CHILDREN None, st)"
    by (simp add: u)
  have B: "children (procs st task) \<noteq> 0
        \<and> children (procs st task) \<le> of_nat (length (queues st (WaitingList task))) \<longrightarrow>
        u_wait status_ptr status_ok st = Inr (WReturn ERR_WAIT_FULL None, st)"
    by (simp add: u)
  have C: "children (procs st task) \<noteq> 0
        \<and> \<not> children (procs st task) \<le> of_nat (length (queues st (WaitingList task)))
        \<and> first_exited (procs st) (kids (procs st task)) = Some c
        \<and> original_tid (procs st c) \<noteq> - 1 \<longrightarrow>
        u_wait status_ptr status_ok st =
          Inr (WReturn (original_tid (procs st c))
                 (if status_ptr \<noteq> 0 then Some (exit_status (procs st c)) else None),
               snd (destroy_process (Some c) st))
        \<and> p_state (procs (snd (destroy_process (Some c) st)) c) = BURIED
        \<and> (parent (procs st c) = Some task \<and> task \<noteq> c \<longrightarrow>
             kids (procs (snd (destroy_process (Some c) st)) task)
               = remove1 c (kids (procs st task))
           \<and> children (procs (snd (destroy_process (Some c) st)) task)
               = children (procs st task) - 1)"
  proof (intro impI, elim conjE)
    assume a: "children (procs st task) \<noteq> 0"
      "\<not> children (procs st task) \<le> of_nat (length (queues st (WaitingList task)))"
      "first_exited (procs st) (kids (procs st task)) = Some c"
      "original_tid (procs st c) \<noteq> - 1"
    have ex: "p_state (procs st c) = EXITED" using first_exited_Some [OF a(3)] by simp
    show "u_wait status_ptr status_ok st =
          Inr (WReturn (original_tid (procs st c))
                 (if status_ptr \<noteq> 0 then Some (exit_status (procs st c)) else None),
               snd (destroy_process (Some c) st))
        \<and> p_state (procs (snd (destroy_process (Some c) st)) c) = BURIED
        \<and> (parent (procs st c) = Some task \<and> task \<noteq> c \<longrightarrow>
             kids (procs (snd (destroy_process (Some c) st)) task)
               = remove1 c (kids (procs st task))
           \<and> children (procs (snd (destroy_process (Some c) st)) task)
               = children (procs st task) - 1)"
      using a(1,2) wait_loop_reap [OF a(1) a(3) a(4), of self status_ptr]
        destroy_process_exited(2) [OF ex] destroy_process_exited(3) [OF ex, of task]
      by (simp add: u)
  qed
  have D: "(\<forall>k \<in> set (kids (procs st task)). - 1 \<le> original_tid (procs st k)) \<longrightarrow>
        (\<forall>x st'. u_wait status_ptr status_ok st = Inr (WReturn ERR_NO_CHILDREN x, st') \<longrightarrow>
            children (procs st task) = 0)
      \<and> (\<forall>x st'. u_wait status_ptr status_ok st = Inr (WReturn ERR_WAIT_FULL x, st') \<longrightarrow>
            children (procs st task) \<noteq> 0
          \<and> children (procs st task) \<le> of_nat (length (queues st (WaitingList task))))"
  proof (intro impI conjI allI)
    fix x st'
    assume k: "\<forall>k \<in> set (kids (procs st task)). - 1 \<le> original_tid (procs st k)"
    {
      assume r: "u_wait status_ptr status_ok st = Inr (WReturn ERR_NO_CHILDREN x, st')"
      show "children (procs st task) = 0"
      proof (rule ccontr)
        assume n: "children (procs st task) \<noteq> 0"
        show False
        proof (cases "children (procs st task) \<le> of_nat (length (queues st (WaitingList task)))")
          case True
          with r n show False by (simp add: u err_defs)
        next
          case False
          with r n have "wait_loop self task status_ptr st = (WReturn ERR_NO_CHILDREN x, st')"
            by (simp add: u)
          from wait_loop_codes [OF this k] show False by simp
        qed
      qed
    }
    {
      assume r: "u_wait status_ptr status_ok st = Inr (WReturn ERR_WAIT_FULL x, st')"
      show "children (procs st task) \<noteq> 0"
        using r by (auto simp: u err_defs)
      show "children (procs st task) \<le> of_nat (length (queues st (WaitingList task)))"
      proof (rule ccontr)
        assume f: "\<not> children (procs st task) \<le> of_nat (length (queues st (WaitingList task)))"
        have n: "children (procs st task) \<noteq> 0" using r by (auto simp: u err_defs)
        with r f have "wait_loop self task status_ptr st = (WReturn ERR_WAIT_FULL x, st')"
          by (simp add: u)
        from wait_loop_codes [OF this k] show False by simp
      qed
    }
  qed
  from A B C D show ?thesis by blast
qed


theorem wait_results_witness:
  "u_wait 0x2000 True k_wait = Inr (WReturn 40 (Some 7), snd (destroy_process (Some 2) k_wait))
   \<and> p_state (procs (snd (destroy_process (Some 2) k_wait)) 2) = BURIED
   \<and> kids (procs (snd (destroy_process (Some 2) k_wait)) 5) = [3]
   \<and> children (procs (snd (destroy_process (Some 2) k_wait)) 5) = 1"
  using wait_results [OF k_wait_fields(1) k_wait_fields(2), of "0x2000" True 2]
  by (simp add: k_wait_fields)


text \<open>
  C3 as stated fails in \<open>k_waitfull\<close>: the only child has exited, yet \<open>wait\<close>
  returns \<open>ERR_WAIT_FULL\<close> and reaps nothing, because one thread already waits.
\<close>

theorem wait_full_with_exited_child:
  "p_state (procs k_waitfull 2) = EXITED
   \<and> kids (procs k_waitfull 5) = [2]
   \<and> exited_child (Some 5) k_waitfull = Some 2
   \<and> u_wait 0 False k_waitfull = Inr (WReturn ERR_WAIT_FULL None, k_waitfull)"
  by (simp add: u_wait_def exited_child_def get_self_def k_waitfull_fields)

section \<open>Entering the reader/writer lock\<close>

lemma rw_example_states:
  "rw_reader_in = \<lparr>writer_in = False, readers_in = 1, writers_waiting = 0, readers_waiting = 0\<rparr>"
  "rw_writer_waits = \<lparr>writer_in = False, readers_in = 1, writers_waiting = 1, readers_waiting = 0\<rparr>"
  "rw_reader_out = \<lparr>writer_in = False, readers_in = 0, writers_waiting = 1, readers_waiting = 0\<rparr>"
  "rw_second_writer_in = \<lparr>writer_in = True, readers_in = 0, writers_waiting = 1, readers_waiting = 0\<rparr>"
  by (simp_all add: rw_reader_in_def rw_writer_waits_def rw_reader_out_def
      rw_second_writer_in_def rwlock_lock_def rwlock_unlock_def read_loop_def rwlock_init_def
      RWLOCK_READ_def RWLOCK_WRITE_def)

text \<open>
  One stretch of \<open>rwlock_lock\<close>. A thread that asks for the lock in write mode sets
  \<open>writer_in\<close> at entry exactly when no writer is in and no reader is in; otherwise
  it counts itself in \<open>writers_waiting\<close> and waits on \<open>no_threads_in\<close>, once: when it
  is woken it sets \<open>writer_in\<close> whatever the state of the lock is. A reader waits on
  \<open>no_writers_in\<close> while \<open>writer_in || writers_waiting > 0\<close>, and tests that
  condition again each time it is woken.
\<close>

theorem rwlock_lock_entry_and_wake:
  "(fst (rwlock_lock RWLOCK_WRITE rw) = Locked \<longleftrightarrow> \<not> writer_in rw \<and> readers_in rw \<le> 0)
   \<and> (writer_in rw \<or> readers_in rw > 0 \<longrightarrow>
        rwlock_lock RWLOCK_WRITE rw
          = (CondWait No_threads_in, rw\<lparr>writers_waiting := writers_waiting rw + 1\<rparr>))
   \<and> (\<not> writer_in rw \<and> readers_in rw \<le> 0 \<longrightarrow>
        rwlock_lock RWLOCK_WRITE rw = (Locked, rw\<lparr>writer_in := True\<rparr>))
   \<and> rwlock_lock_woken RWLOCK_WRITE rw
        = (Locked, rw\<lparr>writers_waiting := writers_waiting rw - 1, writer_in := True\<rparr>)
   \<and> (writer_in rw \<or> writers_waiting rw > 0 \<longrightarrow>
        rwlock_lock RWLOCK_READ rw
          = (CondWait No_writers_in, rw\<lparr>readers_waiting := readers_waiting rw + 1\<rparr>))
   \<and> (\<not> writer_in rw \<and> writers_waiting rw \<le> 0 \<longrightarrow>
        rwlock_lock RWLOCK_READ rw = (Locked, rw\<lparr>readers_in := readers_in rw + 1\<rparr>))
   \<and> (writer_in rw \<or> writers_waiting rw > 0 \<longrightarrow>
        rwlock_lock_woken RWLOCK_READ rw = (CondWait No_writers_in, rw))
   \<and> (\<not> writer_in rw \<and> writers_waiting rw \<le> 0 \<longrightarrow>
        rwlock_lock_woken RWLOCK_READ rw
          = (Locked, rw\<lparr>readers_waiting := readers_waiting rw - 1,
                         readers_in := readers_in rw + 1\<rparr>))"
  by (auto simp: rwlock_lock_def rwlock_lock_woken_def read_loop_def RWLOCK_READ_def
      RWLOCK_WRITE_def)

theorem rwlock_lock_entry_and_wake_witness:
  "rwlock_lock RWLOCK_WRITE rw_reader_in = (CondWait No_threads_in, rw_writer_waits)
   \<and> rwlock_lock RWLOCK_WRITE rw_reader_out = (Locked, rw_second_writer_in)
   \<and> rwlock_lock RWLOCK_READ rw_reader_out
        = (CondWait No_writers_in, rw_reader_out\<lparr>readers_waiting := 1\<rparr>)
   \<and> rwlock_lock RWLOCK_READ rwlock_init = (Locked, rw_reader_in)
   \<and> rwlock_lock_woken RWLOCK_READ rw_reader_out = (CondWait No_writers_in, rw_reader_out)
   \<and> rwlock_lock_woken RWLOCK_READ (rwlock_init\<lparr>readers_waiting := 1\<rparr>) = (Locked, rw_reader_in)"
  using rwlock_lock_entry_and_wake [of rw_reader_in] rwlock_lock_entry_and_wake [of rw_reader_out]
    rwlock_lock_entry_and_wake [of rwlock_init]
    rwlock_lock_entry_and_wake [of "rwlock_init\<lparr>readers_waiting := 1\<rparr>"]
  by (simp add: rw_example_states rwlock_init_def)

text \<open>
  C4. What the code does where the claim says that a thread never sets \<open>writer_in\<close>
  while another writer is in. One reader holds the lock and no writer is in. A first
  writer calls \<open>rwlock_lock\<close> and waits on \<open>no_threads_in\<close>; the reader calls
  \<open>rwlock_unlock\<close>, which brings \<open>readers_in\<close> to 0 and signals \<open>no_threads_in\<close>;
  before the first writer runs again a second writer calls \<open>rwlock_lock\<close>, finds
  neither a writer nor a reader in, sets \<open>writer_in\<close> and returns; the first writer
  then returns from \<open>cond_wait\<close>, does not test the condition again (the test is an
  \<open>if\<close>), sets \<open>writer_in\<close> and returns as well. No \<open>rwlock_unlock\<close> lies between
  the two returns: two writers hold the lock.
\<close>

theorem rwlock_two_writers_in:
  assumes "\<not> writer_in rw" and "readers_in rw = 1" and "0 \<le> writers_waiting rw"
  shows "rwlock_lock RWLOCK_WRITE rw
           = (CondWait No_threads_in, rw\<lparr>writers_waiting := writers_waiting rw + 1\<rparr>)
    \<and> rwlock_unlock (rw\<lparr>writers_waiting := writers_waiting rw + 1\<rparr>)
           = (CondSignal No_threads_in,
              rw\<lparr>writers_waiting := writers_waiting rw + 1, readers_in := 0\<rparr>)
    \<and> rwlock_lock RWLOCK_WRITE (rw\<lparr>writers_waiting := writers_waiting rw + 1, readers_in := 0\<rparr>)
           = (Locked, rw\<lparr>writers_waiting := writers_waiting rw + 1, readers_in := 0,
                          writer_in := True\<rparr>)
    \<and> rwlock_lock_woken RWLOCK_WRITE
           (rw\<lparr>writers_waiting := writers_waiting rw + 1, readers_in := 0, writer_in := True\<rparr>)
           = (Locked, rw\<lparr>writers_waiting := writers_waiting rw, readers_in := 0,
                          writer_in := True\<rparr>)"
  using assms
  by (simp add: rwlock_lock_def rwlock_lock_woken_def rwlock_unlock_def Let_def
      RWLOCK_READ_def RWLOCK_WRITE_def)

theorem rwlock_two_writers_in_witness:
  "rwlock_lock RWLOCK_READ rwlock_init = (Locked, rw_reader_in)
   \<and> \<not> writer_in rw_reader_in \<and> readers_in rw_reader_in = 1
   \<and> 0 \<le> writers_waiting rw_reader_in
   \<and> rwlock_lock RWLOCK_WRITE rw_reader_in = (CondWait No_threads_in, rw_writer_waits)
   \<and> rwlock_unlock rw_writer_waits = (CondSignal No_threads_in, rw_reader_out)
   \<and> rwlock_lock RWLOCK_WRITE rw_reader_out = (Locked, rw_second_writer_in)
   \<and> writer_in rw_second_writer_in
   \<and> rwlock_lock_woken RWLOCK_WRITE rw_second_writer_in
        = (Locked, \<lparr>writer_in = True, readers_in = 0, writers_waiting = 0,
                    readers_waiting = 0\<rparr>)"
  using rwlock_two_writers_in [of rw_reader_in]
  by (simp add: rw_example_states rwlock_init_def rwlock_lock_def read_loop_def RWLOCK_READ_def)

section \<open>The mutex wait list\<close>

lemma linked_cong:
  "(\<And>x. x \<in> set xs \<Longrightarrow> mutex_nextwait (th' x) = mutex_nextwait (th x)) \<Longrightarrow>
     linked th' xs = linked th xs"
  by (induction th xs rule: linked.induct) auto

lemma linked_butlast_cong:
  "(\<And>x. x \<in> set (butlast xs) \<Longrightarrow> mutex_nextwait (th' x) = mutex_nextwait (th x)) \<Longrightarrow>
     linked th' xs = linked th xs"
  by (induction th xs rule: linked.induct) auto

lemma linked_snoc:
  "linked th (xs @ [l]) \<Longrightarrow> l \<notin> set xs \<Longrightarrow>
     linked (th(l := (th l)\<lparr>mutex_nextwait := Some t\<rparr>)) (xs @ [l, t])"
  by (induction th xs rule: linked.induct) auto

lemma linked_tl: "linked th (x # xs) \<Longrightarrow> linked th xs"
  by (cases xs) auto

lemma waitq_addLast:
  assumes w: "waitq st mp xs" and op: "operational st" and t: "t \<notin> set xs"
  shows "waitq (waitlist_addLast mp t st) mp (xs @ [t])"
proof (cases xs rule: rev_cases)
  case Nil
  with w op show ?thesis
    by (simp add: waitq_def waitlist_addLast_def upd_mutex_def)
next
  case (snoc ys l)
  have lw: "last_waiting (mutexes st mp) = Some l"
    and fw: "first_waiting (mutexes st mp) = Some (hd (ys @ [l]))"
    using w snoc by (simp_all add: waitq_def)
  have st': "waitlist_addLast mp t st =
      upd_mutex mp (\<lambda>m. m\<lparr>last_waiting := Some t\<rparr>)
        (upd_thread l (\<lambda>c. c\<lparr>mutex_nextwait := Some t\<rparr>) st)"
    using op lw by (simp add: waitlist_addLast_def)
  have d: "distinct (ys @ [l])" "linked (threads st) (ys @ [l])"
    using w snoc by (simp_all add: waitq_def)
  then have "linked ((threads st)(l := (threads st l)\<lparr>mutex_nextwait := Some t\<rparr>)) (ys @ [l, t])"
    by (intro linked_snoc) auto
  moreover have "hd (ys @ [l, t]) = hd (ys @ [l])" by (cases ys) auto
  ultimately show ?thesis
    using d t snoc fw
    by (simp add: waitq_def st' upd_mutex_def upd_thread_def)
qed

lemma waitq_removeHead:
  assumes w: "waitq st mp (x # xs)" and op: "operational st"
  shows "fst (waitlist_removeHead mp st) = Some x"
    and "waitq (snd (waitlist_removeHead mp st)) mp xs"
    and "threads (snd (waitlist_removeHead mp st)) = threads st"
    and "operational (snd (waitlist_removeHead mp st))"
proof -
  have fw: "first_waiting (mutexes st mp) = Some x"
    and lw: "last_waiting (mutexes st mp) = Some (last (x # xs))"
    and d: "distinct (x # xs)" and l: "linked (threads st) (x # xs)"
    using w by (simp_all add: waitq_def)
  show "fst (waitlist_removeHead mp st) = Some x"
    using op fw by (simp add: waitlist_removeHead_def Let_def)
  show "threads (snd (waitlist_removeHead mp st)) = threads st"
    using op fw by (simp add: waitlist_removeHead_def Let_def upd_mutex_def)
  show "operational (snd (waitlist_removeHead mp st))"
    using op fw by (simp add: waitlist_removeHead_def Let_def upd_mutex_def)
  show "waitq (snd (waitlist_removeHead mp st)) mp xs"
  proof (cases xs)
    case Nil
    with op fw lw show ?thesis
      by (simp add: waitq_def waitlist_removeHead_def Let_def upd_mutex_def)
  next
    case (Cons y r)
    have nx: "mutex_nextwait (threads st x) = Some y" using l Cons by simp
    have ne: "last (x # xs) \<noteq> x" using d Cons by auto
    show ?thesis
      using op fw lw nx ne d linked_tl [OF l] Cons
      by (simp add: waitq_def waitlist_removeHead_def Let_def upd_mutex_def)
  qed
qed


lemma waitq_upd_owner:
  "waitq (upd_mutex mp (\<lambda>m. m\<lparr>owner := v\<rparr>) st) mp xs = waitq st mp xs"
  by (simp add: waitq_def upd_mutex_def)

lemma release_loop_selects:
  assumes "waitq st mp (pre @ t # post)" and "operational st"
    and "\<forall>p \<in> set pre. t_state (threads st p) \<noteq> THR_RUNNING"
    and "t_state (threads st t) = THR_RUNNING"
  shows "\<exists>st'. release_loop mp st = Some st' \<and> owner (mutexes st' mp) = Some t
           \<and> waitq st' mp post \<and> threads st' = threads st \<and> operational st'
           \<and> queues st' = queues st \<and> mutex_lock (mutexes st' mp) = mutex_lock (mutexes st mp)"
  using assms
proof (induction pre arbitrary: st)
  case Nil
  then have w: "waitq st mp (t # post)" by simp
  note rh = waitq_removeHead [OF w Nil(2)]
  obtain nxt st1 where r: "waitlist_removeHead mp st = (nxt, st1)" by fastforce
  have n: "nxt = Some t" using rh(1) r by simp
  have q: "queues st1 = queues st" "mutex_lock (mutexes st1 mp) = mutex_lock (mutexes st mp)"
    using r Nil(2) by (auto simp: waitlist_removeHead_def Let_def upd_mutex_def
        split: option.splits if_splits)
  show ?case
    using rh(2,3,4) r n Nil(4) q
    by (subst release_loop.simps)
       (simp add: Let_def waitq_upd_owner upd_mutex_def waitq_def)
next
  case (Cons p pre)
  then have w: "waitq st mp (p # (pre @ t # post))" by simp
  note rh = waitq_removeHead [OF w Cons(3)]
  obtain nxt st1 where r: "waitlist_removeHead mp st = (nxt, st1)" by fastforce
  have n: "nxt = Some p" using rh(1) r by simp
  have q: "queues st1 = queues st" "mutex_lock (mutexes st1 mp) = mutex_lock (mutexes st mp)"
    using r Cons(3) by (auto simp: waitlist_removeHead_def Let_def upd_mutex_def
        split: option.splits if_splits)
  let ?st2 = "upd_mutex mp (\<lambda>m. m\<lparr>owner := Some p\<rparr>) st1"
  have t2: "threads ?st2 = threads st" "operational ?st2" "queues ?st2 = queues st"
      "mutex_lock (mutexes ?st2 mp) = mutex_lock (mutexes st mp)"
    using rh(3,4) r q by (simp_all add: upd_mutex_def)
  have w2: "waitq ?st2 mp (pre @ t # post)" using rh(2) r by (simp add: waitq_upd_owner)
  have np: "t_state (threads ?st2 p) \<noteq> THR_RUNNING" using Cons(4) t2 by simp
  from Cons.IH [OF w2 t2(2)] Cons(4,5) t2
  obtain st' where "release_loop mp ?st2 = Some st'" "owner (mutexes st' mp) = Some t"
      "waitq st' mp post" "threads st' = threads st" "operational st'"
      "queues st' = queues st" "mutex_lock (mutexes st' mp) = mutex_lock (mutexes st mp)"
    by auto
  then show ?case
    using r n np by (subst release_loop.simps) (simp add: Let_def)
qed

lemma waitq_prelude:
  "waitq (upd_mutex mp (\<lambda>m. m\<lparr>previous_lock := None\<rparr>)
           (upd_thread me (\<lambda>c. c\<lparr>acquired_lock := a\<rparr>)
             (upd_mutex mp (\<lambda>m. m\<lparr>mutex_lock := True, list_owner := Some me\<rparr>) st))) mp xs
     = waitq st mp xs"
proof -
  have "linked (threads (upd_mutex mp (\<lambda>m. m\<lparr>previous_lock := None\<rparr>)
           (upd_thread me (\<lambda>c. c\<lparr>acquired_lock := a\<rparr>)
             (upd_mutex mp (\<lambda>m. m\<lparr>mutex_lock := True, list_owner := Some me\<rparr>) st)))) xs
      = linked (threads st) xs"
    by (rule linked_cong) (simp add: upd_mutex_def upd_thread_def)
  then show ?thesis by (simp add: waitq_def upd_mutex_def upd_thread_def)
qed

lemma mutex_unlock_hands_over:
  assumes w: "waitq st mp (pre @ t # post)" and op: "operational st"
    and pre: "\<forall>p \<in> set pre. t_state (threads st p) \<noteq> THR_RUNNING"
    and t: "t_state (threads st t) = THR_RUNNING"
    and me: "get_running st = Some me"
    and free: "\<not> mutex_lock (mutexes st mp)"
    and acq: "acquired_lock (threads st me) = Some mp"
    and own: "owner (mutexes st mp) \<noteq> None"
  shows "\<exists>st'. mutex_unlock mp st = Some (Inr (YieldTo t, st'))
           \<and> owner (mutexes st' mp) = Some t \<and> waitq st' mp post
           \<and> \<not> mutex_lock (mutexes st' mp)"
proof -
  let ?st3 = "upd_mutex mp (\<lambda>m. m\<lparr>previous_lock := None\<rparr>)
           (upd_thread me (\<lambda>c. c\<lparr>acquired_lock := previous_lock (mutexes st mp)\<rparr>)
             (upd_mutex mp (\<lambda>m. m\<lparr>mutex_lock := True, list_owner := Some me\<rparr>) st))"
  have w3: "waitq ?st3 mp (pre @ t # post)" using w by (simp add: waitq_prelude)
  have op3: "operational ?st3" using op by (simp add: upd_mutex_def upd_thread_def)
  have ts: "\<And>x. t_state (threads ?st3 x) = t_state (threads st x)"
    by (simp add: upd_mutex_def upd_thread_def)
  have pre3: "\<forall>p \<in> set pre. t_state (threads ?st3 p) \<noteq> THR_RUNNING" using pre ts by simp
  have t3: "t_state (threads ?st3 t) = THR_RUNNING" using t ts by simp
  from release_loop_selects [OF w3 op3 pre3 t3]
  obtain st4 where r: "release_loop mp ?st3 = Some st4" "owner (mutexes st4 mp) = Some t"
      "waitq st4 mp post" by blast
  let ?st5 = "upd_mutex mp (\<lambda>m. m\<lparr>mutex_lock := False, list_owner := None\<rparr>) st4"
  have "waitq ?st5 mp post" using r(3) by (simp add: waitq_def upd_mutex_def)
  moreover have "owner (mutexes ?st5 mp) = Some t" "\<not> mutex_lock (mutexes ?st5 mp)"
    using r(2) by (simp_all add: upd_mutex_def)
  moreover have "mutex_unlock mp st = Some (Inr (YieldTo t, ?st5))"
  proof -
    have gs: "get_self st = Inr me" using me by (simp add: get_self_def)
    have a1: "acquired_lock (threads (upd_mutex mp
        (\<lambda>m. m\<lparr>mutex_lock := True, list_owner := Some me\<rparr>) st) me) = Some mp"
      using acq by (simp add: upd_mutex_def)
    have pl: "previous_lock (mutexes (upd_mutex mp
        (\<lambda>m. m\<lparr>mutex_lock := True, list_owner := Some me\<rparr>) st) mp) = previous_lock (mutexes st mp)"
      by (simp add: upd_mutex_def)
    have o3: "owner (mutexes ?st3 mp) \<noteq> None" using own by (simp add: upd_mutex_def upd_thread_def)
    show ?thesis
      unfolding mutex_unlock_def Let_def
      using op gs free a1 pl o3 r(1) r(2)
      by (simp add: upd_mutex_def [of mp "\<lambda>m. m\<lparr>mutex_lock := False, list_owner := None\<rparr>"])
  qed
  ultimately show ?thesis by blast
qed

lemma k_mutex_fields:
  "operational k_mutex"
  "get_running k_mutex = Some 32"
  "acquired_lock (threads k_mutex 32) = Some 7"
  "t_state (threads k_mutex 33) = THR_SLEEPING"
  "t_state (threads k_mutex 36) = THR_RUNNING"
  "\<not> mutex_lock (mutexes k_mutex 7)"
  "owner (mutexes k_mutex 7) = Some 32"
  by (simp_all add: k_mutex_def k_example_def get_running_def thread_example_def
      mutex_example_def)

lemma k_mutex_waitq: "waitq k_mutex 7 [33, 36, 37]"
  by (simp add: waitq_def k_mutex_def k_example_def thread_example_def mutex_example_def)

text \<open>
  While the chain of \<open>mutex_nextwait\<close> pointers of the waiters is intact, the wait list
  is first-in-first-out. When the wait list of mutex \<open>mp\<close> holds the threads \<open>xs\<close>,
  earliest first: \<open>waitlist_addLast\<close> of a thread that is not waiting puts it behind
  all of \<open>xs\<close>; \<open>waitlist_removeHead\<close> returns the first thread of \<open>xs\<close> and leaves
  the others in their order; and \<open>mutex_unlock\<close> by the holder, when \<open>w\<close> is the
  earliest waiter whose state is \<open>THR_RUNNING\<close>, drops the waiters before \<open>w\<close>, makes
  \<open>w\<close> the owner, yields to \<open>w\<close> and leaves the waiters behind \<open>w\<close> in their order.
\<close>

theorem mutex_waiters_fifo:
  assumes "waitq st mp xs" and "operational st"
  shows "(t \<notin> set xs \<longrightarrow> waitq (waitlist_addLast mp t st) mp (xs @ [t]))
       \<and> (xs \<noteq> [] \<longrightarrow>
            fst (waitlist_removeHead mp st) = Some (hd xs)
          \<and> waitq (snd (waitlist_removeHead mp st)) mp (tl xs))
       \<and> (xs = pre @ w # post
          \<and> (\<forall>p \<in> set pre. t_state (threads st p) \<noteq> THR_RUNNING)
          \<and> t_state (threads st w) = THR_RUNNING
          \<and> get_running st = Some me
          \<and> \<not> mutex_lock (mutexes st mp)
          \<and> acquired_lock (threads st me) = Some mp
          \<and> owner (mutexes st mp) \<noteq> None \<longrightarrow>
            (\<exists>st'. mutex_unlock mp st = Some (Inr (YieldTo w, st'))
               \<and> owner (mutexes st' mp) = Some w
               \<and> waitq st' mp post
               \<and> \<not> mutex_lock (mutexes st' mp)))"
proof (intro conjI impI)
  assume "t \<notin> set xs"
  with assms show "waitq (waitlist_addLast mp t st) mp (xs @ [t])" by (rule waitq_addLast)
next
  assume "xs \<noteq> []"
  then obtain x r where x: "xs = x # r" by (cases xs) auto
  with assms have "waitq st mp (x # r)" by simp
  from waitq_removeHead(1,2) [OF this assms(2)] x
  show "fst (waitlist_removeHead mp st) = Some (hd xs)"
    and "waitq (snd (waitlist_removeHead mp st)) mp (tl xs)" by simp_all
next
  assume a: "xs = pre @ w # post
          \<and> (\<forall>p \<in> set pre. t_state (threads st p) \<noteq> THR_RUNNING)
          \<and> t_state (threads st w) = THR_RUNNING
          \<and> get_running st = Some me
          \<and> \<not> mutex_lock (mutexes st mp)
          \<and> acquired_lock (threads st me) = Some mp
          \<and> owner (mutexes st mp) \<noteq> None"
  then have "waitq st mp (pre @ w # post)" using assms by simp
  from mutex_unlock_hands_over [OF this assms(2)] a
  show "\<exists>st'. mutex_unlock mp st = Some (Inr (YieldTo w, st'))
               \<and> owner (mutexes st' mp) = Some w
               \<and> waitq st' mp post
               \<and> \<not> mutex_lock (mutexes st' mp)" by blast
qed

theorem mutex_waiters_fifo_witness:
  "waitq k_mutex 7 [33, 36, 37]
   \<and> waitq (waitlist_addLast 7 38 k_mutex) 7 [33, 36, 37, 38]
   \<and> fst (waitlist_removeHead 7 k_mutex) = Some 33
   \<and> (\<exists>st'. mutex_unlock 7 k_mutex = Some (Inr (YieldTo 36, st'))
          \<and> owner (mutexes st' 7) = Some 36 \<and> waitq st' 7 [37])"
  using mutex_waiters_fifo [OF k_mutex_waitq k_mutex_fields(1), of 38 "[33]" 36 "[37]" 32]
    k_mutex_waitq
  by (simp add: k_mutex_fields) blast

section \<open>\<open>new_pages\<close> and \<open>remove_pages\<close>: the region table\<close>

lemma find_region_first:
  assumes "i \<le> r" "r < i + k" "m r AND 0xfffff000 = base"
    and "\<forall>j. i \<le> j \<and> j < r \<longrightarrow> m j AND 0xfffff000 \<noteq> base"
  shows "find_region m base i k = Some (r, m r AND 0xfff)"
  using assms
proof (induction k arbitrary: i)
  case 0
  then show ?case by simp
next
  case (Suc k)
  show ?case
  proof (cases "i = r")
    case True
    with Suc.prems show ?thesis by simp
  next
    case False
    with Suc.prems have "m i AND 0xfffff000 \<noteq> base" "Suc i \<le> r" "r < Suc i + k" by auto
    moreover have "\<forall>j. Suc i \<le> j \<and> j < r \<longrightarrow> m j AND 0xfffff000 \<noteq> base"
      using Suc.prems(4) by auto
    ultimately show ?thesis using Suc.IH [of "Suc i"] Suc.prems(3) by simp
  qed
qed

lemma find_region_Some:
  "find_region m base i k = Some (r, n) \<Longrightarrow>
     i \<le> r \<and> r < i + k \<and> m r AND 0xfffff000 = base \<and> n = m r AND 0xfff"
proof (induction k arbitrary: i)
  case 0
  then show ?case by simp
next
  case (Suc k)
  then show ?case by (fastforce split: if_splits)
qed

lemma find_region_found:
  assumes "i \<le> r" "r < i + k" "m r AND 0xfffff000 = base"
  shows "\<exists>r'. find_region m base i k = Some (r', m r' AND 0xfff)"
  using assms
proof (induction k arbitrary: i)
  case 0
  then show ?case by simp
next
  case (Suc k)
  show ?case
  proof (cases "m i AND 0xfffff000 = base")
    case True
    then show ?thesis by simp
  next
    case False
    with Suc.prems have "i \<noteq> r" by auto
    with Suc.prems have "Suc i \<le> r" "r < Suc i + k" by auto
    from Suc.IH [OF this Suc.prems(3)] False show ?thesis by simp
  qed
qed

lemma next_region_lt:
  "nextid < PAGE_TABLE_ENTRIES \<Longrightarrow> next_region m idx nextid < PAGE_TABLE_ENTRIES"
proof (induction m idx nextid rule: next_region.induct)
  case (1 m idx nextid)
  show ?case
  proof (cases "nextid = idx \<or> PAGE_TABLE_ENTRIES \<le> idx \<or> m nextid = 0")
    case True
    with 1 show ?thesis by (subst next_region.simps) auto
  next
    case False
    then have "next_region m idx nextid = next_region m idx ((nextid + 1) mod PAGE_TABLE_ENTRIES)"
      by (subst next_region.simps) auto
    moreover have "(nextid + 1) mod PAGE_TABLE_ENTRIES < PAGE_TABLE_ENTRIES"
      by (simp add: PAGE_TABLE_ENTRIES_def)
    ultimately show ?thesis using 1 False by simp
  qed
qed

lemma cursor_moves:
  assumes "idx < PAGE_TABLE_ENTRIES" "nextid < PAGE_TABLE_ENTRIES"
  shows "(if nextid = idx then - 1 else of_nat nextid) \<noteq> (of_nat idx :: u32)"
proof -
  have i: "unat (of_nat idx :: u32) = idx" using assms(1)
    by (simp add: unat_of_nat PAGE_TABLE_ENTRIES_def)
  have n: "unat (of_nat nextid :: u32) = nextid" using assms(2)
    by (simp add: unat_of_nat PAGE_TABLE_ENTRIES_def)
  have "(- 1 :: u32) \<noteq> of_nat idx"
  proof
    assume "(- 1 :: u32) = of_nat idx"
    then have "unat (- 1 :: u32) = idx" using i by simp
    then show False using assms(1)
      by (simp add: unsigned_minus_1_eq_mask mask_eq_exp_minus_1 PAGE_TABLE_ENTRIES_def)
  qed
  moreover have "nextid \<noteq> idx \<Longrightarrow> (of_nat nextid :: u32) \<noteq> of_nat idx"
    using i n by metis
  ultimately show ?thesis by simp
qed

lemma destroy_page_fields:
  "destroy_page ums va s = Inr (r, s') \<Longrightarrow>
     memregions s' = memregions s \<and> next_memregion_idx s' = next_memregion_idx s
     \<and> pd s' = pd s"
  by (auto simp: destroy_page_def Let_def set_pte_def split: if_splits option.splits sum.splits
      dest!: free_frame_fields)

lemma destroy_loop_fields:
  "destroy_loop ums base j k s = Inr s' \<Longrightarrow>
     memregions s' = memregions s \<and> next_memregion_idx s' = next_memregion_idx s
     \<and> pd s' = pd s"
proof (induction k arbitrary: j s)
  case 0
  then show ?case by simp
next
  case (Suc k)
  then show ?case
    by (auto split: sum.splits if_splits dest!: destroy_page_fields)
qed

lemma aligned_low_bits: "(base::u32) mod PAGE_SIZE = 0 \<Longrightarrow> base AND 0xfff = 0"
proof -
  assume "base mod PAGE_SIZE = 0"
  then have "base mod 2 ^ 12 = 0" by (simp add: PAGE_SIZE_def)
  moreover have "base mod 2 ^ 12 = base AND mask 12" by (rule word_mod_2p_is_mask) simp
  ultimately show ?thesis by (simp add: flags_mask_mask)
qed

lemma aligned_high_bits: "(base::u32) mod PAGE_SIZE = 0 \<Longrightarrow> base AND 0xfffff000 = base"
  using aligned_addr [of base] by (simp add: ADDR_MASK_def)


lemma cursor_valid:
  "unat (c::u32) < PAGE_TABLE_ENTRIES \<Longrightarrow> c \<noteq> - 1"
  by (auto simp add: unsigned_minus_1_eq_mask mask_eq_exp_minus_1 PAGE_TABLE_ENTRIES_def)

lemma remove_pages_keeps_empty_region:
  assumes "u_remove_pages ums b s = Inr (r, s')" and "memregions s i AND 0xfff = 0"
  shows "memregions s' i = memregions s i"
proof (cases "b mod PAGE_SIZE \<noteq> 0")
  case True
  with assms show ?thesis by (simp add: u_remove_pages_def)
next
  case False
  show ?thesis
  proof (cases "find_region (memregions s) b 0 PAGE_TABLE_ENTRIES")
    case None
    with assms False show ?thesis by (simp add: u_remove_pages_def)
  next
    case (Some a)
    obtain reg n where a: "a = (reg, n)" by (cases a)
    from find_region_Some [OF Some [unfolded a]]
    have n: "n = memregions s reg AND 0xfff" by simp
    show ?thesis
    proof (cases "n = 0")
      case True
      with assms False Some a show ?thesis by (simp add: u_remove_pages_def)
    next
      case nz: False
      with n assms(2) have ne: "reg \<noteq> i" by auto
      from assms(1) False Some a nz obtain s1 where
        d: "destroy_loop ums b 0 (unat n) s = Inr s1"
        and s': "s' = s1\<lparr>memregions := (memregions s1)(reg := 0),
                    next_memregion_idx := (if next_memregion_idx s1 = - 1 then of_nat reg
                                           else next_memregion_idx s1)\<rparr>"
        by (auto simp add: u_remove_pages_def split: sum.splits)
      from destroy_loop_fields [OF d] s' ne show ?thesis by simp
    qed
  qed
qed

lemma vm_paging_fields:
  "next_memregion_idx vm_paging = 2"
  "memregions vm_paging = (\<lambda>i. 0)"
  by (simp_all add: vm_paging_def vm_example_def)

section \<open>Pages of a region\<close>

text \<open>
  The addresses \<open>base + i * PAGE_SIZE\<close> of a region of at most \<open>2^20\<close> pages are
  page-aligned and distinct, and two aligned addresses with the same directory and
  table index are equal.
\<close>

lemma u8_inc:
  assumes "(v::u8) \<noteq> 255"
  shows "unat (v + 1) = unat v + 1"
proof -
  have lt: "unat v < 256" using unsigned_less [of v, where 'a = nat] by simp
  have "unat v \<noteq> 255"
  proof
    assume "unat v = 255"
    then have "of_nat (unat v) = (of_nat 255 :: u8)" by simp
    then show False using assms by simp
  qed
  with lt have "unat v + 1 < 256" by simp
  then show ?thesis by (simp add: unat_word_ariths)
qed

lemma u8_dec: "(v::u8) \<noteq> 0 \<Longrightarrow> unat (v - 1) = unat v - 1"
  by (rule unat_minus_one)

lemma va_aligned:
  assumes "base mod PAGE_SIZE = 0"
  shows "(base + w * PAGE_SIZE) mod PAGE_SIZE = 0"
proof -
  have d: "(4096::nat) dvd 2 ^ 32" by (rule dvdI [of _ _ "2 ^ 20"]) simp
  have "unat (base + w * PAGE_SIZE) = (unat base + unat w * 4096) mod 2 ^ 32"
    by (simp add: unat_word_ariths mod_simps PAGE_SIZE_def)
  then have "unat (base + w * PAGE_SIZE) mod 4096 = (unat base + unat w * 4096) mod 4096"
    using mod_mod_cancel [OF d] by simp
  also have "\<dots> = unat base mod 4096" by simp
  finally show ?thesis using assms unfolding aligned_unat by simp
qed

lemma va_inj:
  assumes "i < 2 ^ 20" "j < 2 ^ 20"
    and "base + of_nat i * PAGE_SIZE = base + of_nat j * PAGE_SIZE"
  shows "i = j"
proof -
  have u: "\<And>n. n < 2 ^ 20 \<Longrightarrow> unat (of_nat n * PAGE_SIZE :: u32) = n * 4096"
  proof -
    fix n :: nat
    assume n: "n < 2 ^ 20"
    then have "unat (of_nat n :: u32) = n" by (simp add: unat_of_nat)
    then show "unat (of_nat n * PAGE_SIZE :: u32) = n * 4096"
      using n by (simp add: unat_word_ariths PAGE_SIZE_def)
  qed
  from assms(3) have "(of_nat i * PAGE_SIZE :: u32) = of_nat j * PAGE_SIZE" by simp
  then have "unat (of_nat i * PAGE_SIZE :: u32) = unat (of_nat j * PAGE_SIZE :: u32)" by simp
  then show ?thesis using u [OF assms(1)] u [OF assms(2)] by simp
qed

lemma offsets_lt: "PDE_OFFSET va < PAGE_TABLE_ENTRIES" "PTE_OFFSET va < PAGE_TABLE_ENTRIES"
proof -
  have "unat (va AND DIR_MASK) < 2 ^ 32"
    using unsigned_less [of "va AND DIR_MASK", where 'a = nat] by simp
  then have "unat (va AND DIR_MASK) div 2 ^ 22 < 2 ^ 10"
    by (intro less_mult_imp_div_less) simp
  then show "PDE_OFFSET va < PAGE_TABLE_ENTRIES"
    by (simp add: PDE_OFFSET_def PAGE_TABLE_ENTRIES_def unat_drop_bit_eq drop_bit_eq_div unat_div)
  have "va AND PAGE_MASK \<le> PAGE_MASK" by (rule word_and_le1)
  then have "unat (va AND PAGE_MASK) \<le> unat PAGE_MASK" by (simp add: word_le_nat_alt)
  then have "unat (va AND PAGE_MASK) < 2 ^ 22" by (simp add: PAGE_MASK_def)
  then have "unat (va AND PAGE_MASK) div 2 ^ 12 < 2 ^ 10"
    by (intro less_mult_imp_div_less) simp
  then show "PTE_OFFSET va < PAGE_TABLE_ENTRIES"
    by (simp add: PTE_OFFSET_def PAGE_TABLE_ENTRIES_def unat_drop_bit_eq drop_bit_eq_div unat_div)
qed

lemma low_bits_zero:
  assumes "take_bit n (w::u32) = 0"
  shows "push_bit n (drop_bit n w) = w"
  using bits_ident [of n w] assms by simp

lemma offsets_inj:
  assumes a: "va mod PAGE_SIZE = 0" "va' mod PAGE_SIZE = 0"
    and d: "PDE_OFFSET va = PDE_OFFSET va'" and t: "PTE_OFFSET va = PTE_OFFSET va'"
  shows "va = va'"
proof -
  have split: "\<And>x::u32. x mod PAGE_SIZE = 0 \<Longrightarrow> x = (x AND DIR_MASK) OR (x AND PAGE_MASK)"
  proof -
    fix x :: u32
    assume "x mod PAGE_SIZE = 0"
    then have "x AND ADDR_MASK = x" by (rule aligned_addr)
    moreover have "ADDR_MASK = DIR_MASK OR PAGE_MASK"
      by (simp add: ADDR_MASK_def DIR_MASK_def PAGE_MASK_def)
    ultimately show "x = (x AND DIR_MASK) OR (x AND PAGE_MASK)"
      by (metis bit.conj_disj_distrib)
  qed
  have z1: "\<And>x::u32. take_bit 22 (x AND DIR_MASK) = 0"
    by (simp add: take_bit_eq_mask DIR_MASK_def and.assoc mask_eq_exp_minus_1)
  have z2: "\<And>x::u32. take_bit 12 (x AND PAGE_MASK) = 0"
    by (simp add: take_bit_eq_mask PAGE_MASK_def and.assoc mask_eq_exp_minus_1)
  from d have "drop_bit 22 (va AND DIR_MASK) = drop_bit 22 (va' AND DIR_MASK)"
    unfolding PDE_OFFSET_def by (simp only: word_unat_eq_iff)
  then have "push_bit 22 (drop_bit 22 (va AND DIR_MASK)) = push_bit 22 (drop_bit 22 (va' AND DIR_MASK))"
    by simp
  then have e1: "va AND DIR_MASK = va' AND DIR_MASK"
    by (simp only: low_bits_zero [OF z1])
  from t have "drop_bit 12 (va AND PAGE_MASK) = drop_bit 12 (va' AND PAGE_MASK)"
    unfolding PTE_OFFSET_def by (simp only: word_unat_eq_iff)
  then have "push_bit 12 (drop_bit 12 (va AND PAGE_MASK)) = push_bit 12 (drop_bit 12 (va' AND PAGE_MASK))"
    by simp
  then have e2: "va AND PAGE_MASK = va' AND PAGE_MASK"
    by (simp only: low_bits_zero [OF z2])
  show ?thesis using split [OF a(1)] split [OF a(2)] e1 e2 by metis
qed

section \<open>Allocating the hinted frame\<close>

lemma next_free_range:
  "f < length fr \<Longrightarrow>
     next_free fr k f = - 1 \<or> (0 \<le> next_free fr k f \<and> nat (next_free fr k f) < length fr)"
proof (induction k arbitrary: f)
  case 0
  then show ?case by simp
next
  case (Suc k)
  then have "0 < length fr" by auto
  then have "(f + 1) mod length fr < length fr" by (rule mod_less_divisor)
  from Suc.IH [OF this] Suc.prems show ?case by simp
qed


lemma allocate_success:
  assumes al: "ums mod PAGE_SIZE = 0" and nz: "ums \<noteq> 0"
    and fit: "unat ums + length (frames s) * 4096 \<le> 2 ^ 32"
    and h: "hint_in_range s"
    and a: "allocate_frame ums s = Inr (f, s')" and f: "f \<noteq> 0"
  shows "\<exists>n. n < length (frames s) \<and> frames s ! n \<noteq> 255
           \<and> f = FRAME_ADDR ums (int n)
           \<and> frames s' = (frames s)[n := frames s ! n + 1]
           \<and> hint_in_range s'"
proof -
  from a f have "next_available_frame s \<noteq> - 1"
    by (auto simp add: allocate_frame_def u_allocate_frame_def)
  with h obtain n where n: "next_available_frame s = int n" "n < length (frames s)"
    unfolding hint_in_range_def by (metis int_nat_eq)
  have fit': "unat ums + (n + 1) * 4096 \<le> 2 ^ 32" using fit n(2) by simp
  note fa = FRAME_ADDR_aligned [OF al fit'] FRAME_ADDR_user [OF fit'] FRAME_ID_ADDR [OF fit']
  have c: "frames s ! n \<noteq> 255"
  proof
    assume full: "frames s ! n = 255"
    have nk: "FRAME_ID ums (FRAME_ADDR ums (int n)) \<noteq> - 1"
      using fa(2) by (rule FRAME_ID_user)
    have "u_get_frame ums (FRAME_ADDR ums (int n)) s = Inr (ERR_TOO_MANY_FRAME_OWNERS, s)"
      unfolding u_get_frame_def Let_def fa(3)
      using fa(1) nk n(2) full by simp
    then have "allocate_frame ums s = Inl KernelPanic"
      using n(1) by (simp add: allocate_frame_def u_allocate_frame_def Let_def err_defs)
    with a show False by simp
  qed
  from allocate_fresh(1) [OF al nz fit n c] a
  have e: "f = FRAME_ADDR ums (int n)"
      "s' = s\<lparr>frames := (frames s)[n := frames s ! n + 1],
                  next_available_frame :=
                    next_free ((frames s)[n := frames s ! n + 1]) (length (frames s)) n\<rparr>"
    by (simp_all add: allocate_frame_def)
  have "hint_in_range s'"
    using next_free_range [of n "(frames s)[n := frames s ! n + 1]" "length (frames s)"] n(2)
    by (simp add: hint_in_range_def e(2))
  with n(2) c e show ?thesis by auto
qed

section \<open>\<open>create_page\<close> for a page of \<open>new_pages\<close>\<close>

text \<open>
  A successful \<open>create_page(va, MEM_TYPE_USER, NULL)\<close> takes the hinted frame, counts
  it once more, and maps \<open>va\<close> on it; it leaves the entries of the other pages
  alone and keeps the invariants. \<open>create_loop\<close> does so for each page of the region:
  \<open>ids\<close> lists the frame numbers it took, in the order of the pages.
\<close>

lemma getflag_zero: "\<not> PE_GETFLAG 0 f"
  by (simp add: PE_GETFLAG_def)

lemma pde_present:
  "PE_GETFLAG (PE_SETADDR (PE_SETFLAG (PE_SETFLAG (PE_SETFLAG x PDE_PRESENT) PDE_READWRITE)
      PDE_USER) ptr) PDE_PRESENT"
  by (simp add: getflag_num PE_SETFLAG_def flag_defs bit_or_iff setaddr_bit)

lemma create_page_user_shape:
  assumes al: "ums mod PAGE_SIZE = 0" and nz: "ums \<noteq> 0"
    and fit: "unat ums + length (frames s) * 4096 \<le> 2 ^ 32"
    and h: "hint_in_range s"
    and c: "create_page ums va MEM_TYPE_USER 0 s = Inr (0, s')"
  shows "\<exists>n pde. n < length (frames s) \<and> frames s ! n \<noteq> 255
           \<and> frames s' = (frames s)[n := frames s ! n + 1]
           \<and> hint_in_range s'
           \<and> memregions s' = memregions s \<and> next_memregion_idx s' = next_memregion_idx s
           \<and> va mod PAGE_SIZE = 0
           \<and> (if PE_GETFLAG (pd s (PDE_OFFSET va)) PDE_PRESENT
              then pd s' = pd s
                \<and> \<not> PE_GETFLAG (pt s (PDE_OFFSET va) (PTE_OFFSET va)) PTE_PRESENT
                \<and> pt s' = (pt s)(PDE_OFFSET va := (pt s (PDE_OFFSET va))(PTE_OFFSET va :=
                      fill_pte MEM_TYPE_USER 0 (FRAME_ADDR ums (int n)) (zero_frame s)
                        (pt s (PDE_OFFSET va) (PTE_OFFSET va))))
              else pd s' = (pd s)(PDE_OFFSET va := pde) \<and> PE_GETFLAG pde PDE_PRESENT
                \<and> pt s' = (pt s)(PDE_OFFSET va := (\<lambda>j. 0)(PTE_OFFSET va :=
                      fill_pte MEM_TYPE_USER 0 (FRAME_ADDR ums (int n)) (zero_frame s) 0)))"
proof -
  from c have ok: "va mod PAGE_SIZE = 0" "\<not> va < ums"
    by (auto simp: create_page_def err_defs split: if_splits)
  from c ok obtain nf s1 where a: "allocate_frame ums s = Inr (nf, s1)"
    by (auto simp: create_page_def err_defs split: if_splits sum.splits)
  from c ok a have nf: "nf \<noteq> 0"
    by (auto simp: create_page_def err_defs split: if_splits)
  from allocate_success [OF al nz fit h a nf] obtain n where
    n: "n < length (frames s)" "frames s ! n \<noteq> 255" "nf = FRAME_ADDR ums (int n)"
       "frames s1 = (frames s)[n := frames s ! n + 1]" "hint_in_range s1" by blast
  note s1 = allocate_frame_fields [OF a]
  show ?thesis
  proof (cases "get_pte va s1")
    case None
    then have np: "\<not> PE_GETFLAG (pd s (PDE_OFFSET va)) PDE_PRESENT"
      using s1 by (simp add: get_pte_def split: if_splits)
    obtain ptr s2 where sm: "smemalign s1 = (ptr, s2)" by fastforce
    from c ok a nf None sm have ptr: "ptr \<noteq> 0"
      using give_back_nonzero [of ERR_MALLOC_FAIL ums nf s2 s']
      by (auto simp: create_page_def err_defs split: if_splits)
    have s2: "pd s2 = pd s1" "pt s2 = pt s1" "frames s2 = frames s1"
      "next_available_frame s2 = next_available_frame s1" "zero_frame s2 = zero_frame s1"
      "memregions s2 = memregions s1" "next_memregion_idx s2 = next_memregion_idx s1"
      using sm by (auto simp: smemalign_def split: list.splits)
    let ?pde = "PE_SETADDR (PE_SETFLAG (PE_SETFLAG (PE_SETFLAG (pd s2 (PDE_OFFSET va))
                                  PDE_PRESENT) PDE_READWRITE) PDE_USER) ptr"
    let ?s3 = "s2\<lparr>pd := (pd s2)(PDE_OFFSET va := ?pde),
                  pt := (pt s2)(PDE_OFFSET va := (\<lambda>j. 0))\<rparr>"
    from c ok a nf None sm ptr
    have s': "s' = set_pte (PDE_OFFSET va, PTE_OFFSET va)
                (fill_pte MEM_TYPE_USER 0 nf (zero_frame ?s3)
                   (pte_at ?s3 (PDE_OFFSET va, PTE_OFFSET va))) ?s3"
      by (simp add: create_page_def Let_def)
    have f1: "frames s' = (frames s)[n := frames s ! n + 1]"
      by (subst s') (simp add: set_pte_def s2 n)
    have f2: "hint_in_range s'"
      using n(5) by (subst s') (simp add: set_pte_def hint_in_range_def s2)
    have f3: "memregions s' = memregions s" "next_memregion_idx s' = next_memregion_idx s"
      by (subst s', simp add: set_pte_def s2 s1)+
    have f4: "pd s' = (pd s)(PDE_OFFSET va := ?pde)"
      by (subst s') (simp add: set_pte_def s2 s1)
    have f5: "pt s' = (pt s)(PDE_OFFSET va := (\<lambda>j. 0)(PTE_OFFSET va :=
                      fill_pte MEM_TYPE_USER 0 (FRAME_ADDR ums (int n)) (zero_frame s) 0))"
      by (subst s') (simp add: set_pte_def pte_at_def s2 s1 n)
    from n(1,2) f1 f2 f3 ok(1) np f4 f5 pde_present [of "pd s2 (PDE_OFFSET va)" ptr]
    show ?thesis by (intro exI [of _ n] exI [of _ ?pde]) simp
  next
    case (Some l)
    then have l: "l = (PDE_OFFSET va, PTE_OFFSET va)"
      and p: "PE_GETFLAG (pd s (PDE_OFFSET va)) PDE_PRESENT"
      using s1 by (auto simp: get_pte_def split: if_splits)
    from c ok a nf Some have npr: "\<not> PE_GETFLAG (pte_at s1 l) PTE_PRESENT"
      using give_back_nonzero [of ERR_PAGE_ALREADY_PRESENT ums nf s1 s']
      by (auto simp: create_page_def err_defs split: if_splits)
    from c ok a nf Some npr
    have s': "s' = set_pte l (fill_pte MEM_TYPE_USER 0 nf (zero_frame s1) (pte_at s1 l)) s1"
      by (simp add: create_page_def Let_def)
    have f1: "frames s' = (frames s)[n := frames s ! n + 1]"
      by (subst s') (simp add: set_pte_def n)
    have f2: "hint_in_range s'"
      using n(5) by (subst s') (simp add: set_pte_def hint_in_range_def)
    have f3: "memregions s' = memregions s" "next_memregion_idx s' = next_memregion_idx s"
      by (subst s', simp add: set_pte_def s1)+
    have f4: "pd s' = pd s"
      by (subst s') (simp add: set_pte_def s1)
    have f5: "pt s' = (pt s)(PDE_OFFSET va := (pt s (PDE_OFFSET va))(PTE_OFFSET va :=
                      fill_pte MEM_TYPE_USER 0 (FRAME_ADDR ums (int n)) (zero_frame s)
                        (pt s (PDE_OFFSET va) (PTE_OFFSET va))))"
      by (subst s') (simp add: set_pte_def pte_at_def s1 n l)
    have f6: "\<not> PE_GETFLAG (pt s (PDE_OFFSET va) (PTE_OFFSET va)) PTE_PRESENT"
      using npr by (simp add: pte_at_def l s1)
    from n(1,2) f1 f2 f3 ok(1) p f4 f5 f6
    show ?thesis by (intro exI [of _ n]) simp
  qed
qed


lemma user_entry:
  assumes al: "ums mod PAGE_SIZE = 0"
    and fit: "unat ums + (n + 1) * 4096 \<le> 2 ^ 32"
    and g: "\<not> PE_GETFLAG p0 PTE_GLOBAL"
  shows "PE_GETFLAG (fill_pte MEM_TYPE_USER 0 (FRAME_ADDR ums (int n)) zf p0) PTE_PRESENT"
    and "PE_GETFLAG (fill_pte MEM_TYPE_USER 0 (FRAME_ADDR ums (int n)) zf p0) PTE_USER"
    and "\<not> PE_GETFLAG (fill_pte MEM_TYPE_USER 0 (FRAME_ADDR ums (int n)) zf p0) PTE_GLOBAL"
    and "ums \<le> PE_GETADDR (fill_pte MEM_TYPE_USER 0 (FRAME_ADDR ums (int n)) zf p0)"
    and "unat (FRAME_ID ums (PE_GETADDR
           (fill_pte MEM_TYPE_USER 0 (FRAME_ADDR ums (int n)) zf p0))) = n"
proof -
  let ?e = "fill_pte MEM_TYPE_USER 0 (FRAME_ADDR ums (int n)) zf p0"
  show "PE_GETFLAG ?e PTE_PRESENT" "PE_GETFLAG ?e PTE_USER" by (rule fill_pte_flags)+
  show "\<not> PE_GETFLAG ?e PTE_GLOBAL"
    unfolding fill_pte_flags(6) using g by (simp add: getflag_bits(4))
  have "PE_GETADDR ?e = FRAME_ADDR ums (int n)"
    using aligned_addr [OF FRAME_ADDR_aligned [OF al fit]] by (simp add: fill_pte_addr)
  then show "ums \<le> PE_GETADDR ?e" "unat (FRAME_ID ums (PE_GETADDR ?e)) = n"
    using FRAME_ADDR_user [OF fit] FRAME_ID_ADDR [OF fit] by simp_all
qed

lemma create_page_user:
  assumes al: "ums mod PAGE_SIZE = 0" and nz: "ums \<noteq> 0"
    and fit: "unat ums + length (frames s) * 4096 \<le> 2 ^ 32"
    and h: "hint_in_range s" and cl: "pt_clean s"
    and c: "create_page ums va MEM_TYPE_USER 0 s = Inr (0, s')"
  shows "\<exists>n. n < length (frames s) \<and> frames s ! n \<noteq> 255
           \<and> frames s' = (frames s)[n := frames s ! n + 1]
           \<and> page_on ums s' va n
           \<and> hint_in_range s' \<and> pt_clean s'
           \<and> memregions s' = memregions s \<and> next_memregion_idx s' = next_memregion_idx s
           \<and> va mod PAGE_SIZE = 0
           \<and> (\<forall>va' x. va' mod PAGE_SIZE = 0 \<and> va' \<noteq> va \<and> page_on ums s va' x
                 \<longrightarrow> page_on ums s' va' x)"
proof -
  let ?d = "PDE_OFFSET va" and ?t = "PTE_OFFSET va"
  from create_page_user_shape [OF al nz fit h c] obtain n pde where
    n: "n < length (frames s)" "frames s ! n \<noteq> 255"
       "frames s' = (frames s)[n := frames s ! n + 1]" "hint_in_range s'"
       "memregions s' = memregions s" "next_memregion_idx s' = next_memregion_idx s"
       "va mod PAGE_SIZE = 0"
    and sh: "if PE_GETFLAG (pd s ?d) PDE_PRESENT
              then pd s' = pd s
                \<and> \<not> PE_GETFLAG (pt s ?d ?t) PTE_PRESENT
                \<and> pt s' = (pt s)(?d := (pt s ?d)(?t :=
                      fill_pte MEM_TYPE_USER 0 (FRAME_ADDR ums (int n)) (zero_frame s)
                        (pt s ?d ?t)))
              else pd s' = (pd s)(?d := pde) \<and> PE_GETFLAG pde PDE_PRESENT
                \<and> pt s' = (pt s)(?d := (\<lambda>j. 0)(?t :=
                      fill_pte MEM_TYPE_USER 0 (FRAME_ADDR ums (int n)) (zero_frame s) 0))"
    by (elim exE conjE) (rule that; assumption)
  have fit': "unat ums + (n + 1) * 4096 \<le> 2 ^ 32" using fit n(1) by simp
  have lt: "?d < PAGE_TABLE_ENTRIES" "?t < PAGE_TABLE_ENTRIES" by (rule offsets_lt)+
  have on: "page_on ums s' va n"
  proof (cases "PE_GETFLAG (pd s ?d) PDE_PRESENT")
    case True
    with sh have np: "\<not> PE_GETFLAG (pt s ?d ?t) PTE_PRESENT" by simp
    with cl True lt have g: "\<not> PE_GETFLAG (pt s ?d ?t) PTE_GLOBAL"
      unfolding pt_clean_def by blast
    from sh True have e: "pd s' = pd s" "pt s' ?d ?t =
        fill_pte MEM_TYPE_USER 0 (FRAME_ADDR ums (int n)) (zero_frame s) (pt s ?d ?t)"
      by simp_all
    show ?thesis unfolding page_on_def e using True user_entry [OF al fit' g] by simp
  next
    case False
    with sh have e: "PE_GETFLAG (pd s' ?d) PDE_PRESENT" "pt s' ?d ?t =
        fill_pte MEM_TYPE_USER 0 (FRAME_ADDR ums (int n)) (zero_frame s) 0"
      by simp_all
    show ?thesis unfolding page_on_def e(2)
      using e(1) user_entry [OF al fit' getflag_zero [of PTE_GLOBAL]] by simp
  qed
  have clean: "pt_clean s'"
    unfolding pt_clean_def
  proof (intro allI impI)
    fix d t
    assume d: "d < PAGE_TABLE_ENTRIES" and t: "t < PAGE_TABLE_ENTRIES"
      and a: "PE_GETFLAG (pd s' d) PDE_PRESENT \<and> \<not> PE_GETFLAG (pt s' d t) PTE_PRESENT"
    have old: "PE_GETFLAG (pd s d) PDE_PRESENT \<Longrightarrow> \<not> PE_GETFLAG (pt s d t) PTE_PRESENT
        \<Longrightarrow> \<not> PE_GETFLAG (pt s d t) PTE_GLOBAL"
      using cl d t unfolding pt_clean_def by blast
    show "\<not> PE_GETFLAG (pt s' d t) PTE_GLOBAL"
    proof (cases "d = ?d \<and> t = ?t")
      case True
      with a on show ?thesis by (simp add: page_on_def)
    next
      case other: False
      show ?thesis
      proof (cases "PE_GETFLAG (pd s ?d) PDE_PRESENT")
        case True
        with sh other have "pd s' d = pd s d" "pt s' d t = pt s d t" by auto
        with a old show ?thesis by simp
      next
        case False
        show ?thesis
        proof (cases "d = ?d")
          case True
          with sh False other have "pt s' d t = 0" by auto
          then show ?thesis by (simp add: getflag_zero)
        next
          case nd: False
          with sh False have "pd s' d = pd s d" "pt s' d t = pt s d t" by auto
          with a old show ?thesis by simp
        qed
      qed
    qed
  qed
  have keep: "\<forall>va' x. va' mod PAGE_SIZE = 0 \<and> va' \<noteq> va \<and> page_on ums s va' x
                 \<longrightarrow> page_on ums s' va' x"
  proof (intro allI impI)
    fix va' x
    assume a: "va' mod PAGE_SIZE = 0 \<and> va' \<noteq> va \<and> page_on ums s va' x"
    then have pr: "PE_GETFLAG (pd s (PDE_OFFSET va')) PDE_PRESENT" by (simp add: page_on_def)
    have ne: "\<not> (PDE_OFFSET va' = ?d \<and> PTE_OFFSET va' = ?t)"
      using offsets_inj [of va' va] a n(7) by blast
    have "pd s' (PDE_OFFSET va') = pd s (PDE_OFFSET va')
        \<and> pt s' (PDE_OFFSET va') (PTE_OFFSET va') = pt s (PDE_OFFSET va') (PTE_OFFSET va')"
    proof (cases "PE_GETFLAG (pd s ?d) PDE_PRESENT")
      case True
      with sh ne show ?thesis by auto
    next
      case False
      with pr have "PDE_OFFSET va' \<noteq> ?d" by auto
      with sh False show ?thesis by auto
    qed
    with a show "page_on ums s' va' x" by (simp add: page_on_def)
  qed
  from n on clean keep show ?thesis by (intro exI [of _ n]) simp
qed


lemma create_loop_pages:
  assumes al: "ums mod PAGE_SIZE = 0" and nz: "ums \<noteq> 0"
  shows "unat ums + length (frames s) * 4096 \<le> 2 ^ 32 \<Longrightarrow> hint_in_range s \<Longrightarrow> pt_clean s
    \<Longrightarrow> i + k \<le> 2 ^ 20 \<Longrightarrow> create_loop ums base i k s = Inr (0, s') \<Longrightarrow>
    \<exists>ids. length ids = k
      \<and> (\<forall>j<k. page_on ums s' (base + of_nat (i + j) * PAGE_SIZE) (ids ! j)
                \<and> ids ! j < length (frames s))
      \<and> length (frames s') = length (frames s)
      \<and> (\<forall>x < length (frames s). unat (frames s' ! x) = unat (frames s ! x) + count_list ids x)
      \<and> memregions s' = memregions s \<and> next_memregion_idx s' = next_memregion_idx s
      \<and> (\<forall>va x. va mod PAGE_SIZE = 0 \<and> (\<forall>j<k. va \<noteq> base + of_nat (i + j) * PAGE_SIZE)
              \<and> page_on ums s va x \<longrightarrow> page_on ums s' va x)"
proof (induction k arbitrary: i s)
  case 0
  then have "s' = s" by simp
  then show ?case by (intro exI [of _ "[]"]) simp
next
  case (Suc k)
  let ?va = "base + of_nat i * PAGE_SIZE"
  from Suc.prems(5) obtain err s1 where
    cp: "create_page ums ?va MEM_TYPE_USER 0 s = Inr (err, s1)"
    by (auto split: sum.splits)
  from Suc.prems(5) cp have err: "err = 0" by (auto split: sum.splits if_splits)
  from Suc.prems(5) cp err have cl: "create_loop ums base (Suc i) k s1 = Inr (0, s')" by simp
  from create_page_user [OF al nz Suc.prems(1,2,3) cp [unfolded err]] obtain n where
    n: "n < length (frames s)" "frames s ! n \<noteq> 255"
       "frames s1 = (frames s)[n := frames s ! n + 1]"
       "page_on ums s1 ?va n" "hint_in_range s1" "pt_clean s1"
       "memregions s1 = memregions s" "next_memregion_idx s1 = next_memregion_idx s"
       "?va mod PAGE_SIZE = 0"
    and keep1: "\<forall>va' x. va' mod PAGE_SIZE = 0 \<and> va' \<noteq> ?va \<and> page_on ums s va' x
                 \<longrightarrow> page_on ums s1 va' x"
    by (elim exE conjE) (rule that; assumption)
  have len1: "length (frames s1) = length (frames s)" by (simp add: n(3))
  have fit1: "unat ums + length (frames s1) * 4096 \<le> 2 ^ 32" using Suc.prems(1) len1 by simp
  have b1: "Suc i + k \<le> 2 ^ 20" using Suc.prems(4) by simp
  from Suc.IH [OF fit1 n(5) n(6) b1 cl] obtain ids where
    ids: "length ids = k"
      "\<forall>j<k. page_on ums s' (base + of_nat (Suc i + j) * PAGE_SIZE) (ids ! j)
                \<and> ids ! j < length (frames s1)"
      "length (frames s') = length (frames s1)"
      "\<forall>x < length (frames s1). unat (frames s' ! x) = unat (frames s1 ! x) + count_list ids x"
      "memregions s' = memregions s1" "next_memregion_idx s' = next_memregion_idx s1"
    and keep2: "\<forall>va x. va mod PAGE_SIZE = 0
              \<and> (\<forall>j<k. va \<noteq> base + of_nat (Suc i + j) * PAGE_SIZE)
              \<and> page_on ums s1 va x \<longrightarrow> page_on ums s' va x"
    by (elim exE conjE) (rule that; assumption)
  have distinct: "\<forall>j<k. ?va \<noteq> base + of_nat (Suc i + j) * PAGE_SIZE"
  proof (intro allI impI notI)
    fix j
    assume j: "j < k" and e: "?va = base + of_nat (Suc i + j) * PAGE_SIZE"
    have "i < 2 ^ 20" "Suc i + j < 2 ^ 20" using Suc.prems(4) j by simp_all
    from va_inj [OF this e] show False by simp
  qed
  have first: "page_on ums s' ?va n"
    using keep2 [rule_format, of ?va n] n(9) distinct n(4) by simp
  have pages: "\<forall>j<Suc k. page_on ums s' (base + of_nat (i + j) * PAGE_SIZE) ((n # ids) ! j)
                \<and> (n # ids) ! j < length (frames s)"
  proof (intro allI impI)
    fix j
    assume j: "j < Suc k"
    show "page_on ums s' (base + of_nat (i + j) * PAGE_SIZE) ((n # ids) ! j)
                \<and> (n # ids) ! j < length (frames s)"
    proof (cases j)
      case 0
      with first n(1) show ?thesis by simp
    next
      case (Suc j')
      with j have "j' < k" by simp
      with ids(2) len1 have "page_on ums s' (base + of_nat (Suc i + j') * PAGE_SIZE) (ids ! j')
                \<and> ids ! j' < length (frames s)" by simp
      with Suc show ?thesis by simp
    qed
  qed
  have counts: "\<forall>x < length (frames s).
      unat (frames s' ! x) = unat (frames s ! x) + count_list (n # ids) x"
  proof (intro allI impI)
    fix x
    assume x: "x < length (frames s)"
    then have "unat (frames s' ! x) = unat (frames s1 ! x) + count_list ids x"
      using ids(4) len1 by simp
    moreover have "unat (frames s1 ! x) = unat (frames s ! x) + (if x = n then 1 else 0)"
      using x n(1) u8_inc [OF n(2)] by (simp add: n(3))
    ultimately show "unat (frames s' ! x) = unat (frames s ! x) + count_list (n # ids) x"
      by simp
  qed
  have keep: "\<forall>va x. va mod PAGE_SIZE = 0
              \<and> (\<forall>j<Suc k. va \<noteq> base + of_nat (i + j) * PAGE_SIZE)
              \<and> page_on ums s va x \<longrightarrow> page_on ums s' va x"
  proof (intro allI impI)
    fix va x
    assume a: "va mod PAGE_SIZE = 0
              \<and> (\<forall>j<Suc k. va \<noteq> base + of_nat (i + j) * PAGE_SIZE)
              \<and> page_on ums s va x"
    then have "0 < Suc k \<longrightarrow> va \<noteq> base + of_nat (i + 0) * PAGE_SIZE" by (elim conjE allE)
    then have "va \<noteq> ?va" by simp
    with a keep1 [rule_format, of va x] have p1: "page_on ums s1 va x" by simp
    have "\<forall>j<k. va \<noteq> base + of_nat (Suc i + j) * PAGE_SIZE"
    proof (intro allI impI)
      fix j
      assume "j < k"
      then have "Suc j < Suc k" by simp
      moreover from a have "Suc j < Suc k \<longrightarrow> va \<noteq> base + of_nat (i + Suc j) * PAGE_SIZE"
        by (elim conjE allE)
      ultimately have "va \<noteq> base + of_nat (i + Suc j) * PAGE_SIZE" by simp
      then show "va \<noteq> base + of_nat (Suc i + j) * PAGE_SIZE" by simp
    qed
    with a p1 keep2 [rule_format, of va x] show "page_on ums s' va x" by simp
  qed
  from ids(1) pages ids(3) len1 counts ids(5,6) n(7,8) keep
  show ?case by (intro exI [of _ "n # ids"]) simp
qed

section \<open>\<open>destroy_page\<close> for a page of \<open>remove_pages\<close>\<close>

lemma destroy_page_mapped:
  assumes va: "va mod PAGE_SIZE = 0" and on: "page_on ums s va x"
    and x: "x < length (frames s)" and c: "frames s ! x \<noteq> 0"
  shows "\<exists>s'. destroy_page ums va s = Inr (0, s')
           \<and> frames s' = (frames s)[x := frames s ! x - 1]
           \<and> pd s' = pd s
           \<and> pt s' = (pt s)(PDE_OFFSET va := (pt s (PDE_OFFSET va))(PTE_OFFSET va := 0))
           \<and> memregions s' = memregions s \<and> next_memregion_idx s' = next_memregion_idx s"
proof -
  let ?l = "(PDE_OFFSET va, PTE_OFFSET va)"
  let ?e = "pt s (PDE_OFFSET va) (PTE_OFFSET va)"
  let ?s0 = "set_pte ?l 0 s"
  from on have p: "PE_GETFLAG (pd s (PDE_OFFSET va)) PDE_PRESENT" "PE_GETFLAG ?e PTE_PRESENT"
      "PE_GETFLAG ?e PTE_USER" "\<not> PE_GETFLAG ?e PTE_GLOBAL" "ums \<le> PE_GETADDR ?e"
      "unat (FRAME_ID ums (PE_GETADDR ?e)) = x"
    by (simp_all add: page_on_def)
  have g: "get_pte va s = Some ?l" using p(1) by (simp add: get_pte_def)
  have e: "pte_at s ?l = ?e" by (simp add: pte_at_def)
  have fa: "PE_GETADDR ?e mod PAGE_SIZE = 0" unfolding PE_GETADDR_def by (rule masked_aligned)
  have nk: "FRAME_ID ums (PE_GETADDR ?e) \<noteq> - 1" using p(5) by (rule FRAME_ID_user)
  have fr0: "frames ?s0 = frames s" "next_available_frame ?s0 = next_available_frame s"
    by (simp_all add: set_pte_def)
  define s' where "s' = (if ((frames s)[x := frames s ! x - 1]) ! x = 0
                          \<and> next_available_frame s = - 1
       then ?s0\<lparr>frames := (frames s)[x := frames s ! x - 1], next_available_frame := int x\<rparr>
       else ?s0\<lparr>frames := (frames s)[x := frames s ! x - 1]\<rparr>)"
  have ff: "free_frame ums (PE_GETADDR ?e) ?s0 = Inr (0, s')"
    unfolding free_frame_def Let_def p(6) fr0 s'_def
    using fa nk x c by simp
  have d: "destroy_page ums va s = Inr (0, s')"
    using va p ff by (simp add: destroy_page_def Let_def g e)
  have "frames s' = (frames s)[x := frames s ! x - 1]" "pd s' = pd s"
    "pt s' = (pt s)(PDE_OFFSET va := (pt s (PDE_OFFSET va))(PTE_OFFSET va := 0))"
    "memregions s' = memregions s" "next_memregion_idx s' = next_memregion_idx s"
    by (simp_all add: s'_def set_pte_def)
  with d show ?thesis by (intro exI [of _ s']) simp
qed

lemma destroy_loop_pages:
  assumes al: "base mod PAGE_SIZE = 0"
  shows "length ids = k
    \<Longrightarrow> \<forall>m<k. page_on ums s (base + of_nat (j + m) * PAGE_SIZE) (ids ! m)
                \<and> ids ! m < length (frames s)
    \<Longrightarrow> \<forall>x < length (frames s). count_list ids x \<le> unat (frames s ! x)
    \<Longrightarrow> j + k \<le> 2 ^ 20
    \<Longrightarrow> \<exists>s'. destroy_loop ums base j k s = Inr s'
          \<and> length (frames s') = length (frames s)
          \<and> (\<forall>x < length (frames s). unat (frames s' ! x) + count_list ids x = unat (frames s ! x))
          \<and> memregions s' = memregions s \<and> next_memregion_idx s' = next_memregion_idx s"
proof (induction k arbitrary: j s ids)
  case 0
  then show ?case by simp
next
  case (Suc k)
  from Suc.prems(1) obtain n ids' where ids: "ids = n # ids'" "length ids' = k"
    by (cases ids) auto
  let ?va = "base + of_nat j * PAGE_SIZE"
  have va: "?va mod PAGE_SIZE = 0" using al by (rule va_aligned)
  from Suc.prems(2) [rule_format, of 0] ids
  have on: "page_on ums s ?va n" and n: "n < length (frames s)" by simp_all
  have "1 \<le> count_list ids n" by (simp add: ids)
  with Suc.prems(3) [rule_format, OF n] have pos: "1 \<le> unat (frames s ! n)" by simp
  then have c: "frames s ! n \<noteq> 0" by auto
  from destroy_page_mapped [OF va on n c] obtain s1 where
    s1: "destroy_page ums ?va s = Inr (0, s1)"
        "frames s1 = (frames s)[n := frames s ! n - 1]" "pd s1 = pd s"
        "pt s1 = (pt s)(PDE_OFFSET ?va := (pt s (PDE_OFFSET ?va))(PTE_OFFSET ?va := 0))"
        "memregions s1 = memregions s" "next_memregion_idx s1 = next_memregion_idx s"
    by (elim exE conjE) (rule that; assumption)
  have len1: "length (frames s1) = length (frames s)" by (simp add: s1(2))
  have pages: "\<forall>m<k. page_on ums s1 (base + of_nat (Suc j + m) * PAGE_SIZE) (ids' ! m)
                \<and> ids' ! m < length (frames s1)"
  proof (intro allI impI)
    fix m
    assume m: "m < k"
    let ?vb = "base + of_nat (Suc j + m) * PAGE_SIZE"
    from Suc.prems(2) [rule_format, of "Suc m"] m ids
    have o: "page_on ums s ?vb (ids' ! m)" and b: "ids' ! m < length (frames s)" by simp_all
    have vb: "?vb mod PAGE_SIZE = 0" using al by (rule va_aligned)
    have "?vb \<noteq> ?va"
    proof
      assume e: "?vb = ?va"
      have "Suc j + m < 2 ^ 20" "j < 2 ^ 20" using Suc.prems(4) m by simp_all
      from va_inj [OF this e] show False by simp
    qed
    then have "\<not> (PDE_OFFSET ?vb = PDE_OFFSET ?va \<and> PTE_OFFSET ?vb = PTE_OFFSET ?va)"
      using offsets_inj [OF vb va] by blast
    then have "pt s1 (PDE_OFFSET ?vb) (PTE_OFFSET ?vb) = pt s (PDE_OFFSET ?vb) (PTE_OFFSET ?vb)"
      by (auto simp add: s1(4))
    with o have "page_on ums s1 ?vb (ids' ! m)" by (simp add: page_on_def s1(3))
    with b len1 show "page_on ums s1 ?vb (ids' ! m) \<and> ids' ! m < length (frames s1)" by simp
  qed
  have f1: "\<And>x. x < length (frames s) \<Longrightarrow>
      unat (frames s1 ! x) = unat (frames s ! x) - (if x = n then 1 else 0)"
    using n u8_dec [OF c] by (simp add: s1(2))
  have counts: "\<forall>x < length (frames s1). count_list ids' x \<le> unat (frames s1 ! x)"
  proof (intro allI impI)
    fix x
    assume "x < length (frames s1)"
    then have x: "x < length (frames s)" using len1 by simp
    from Suc.prems(3) [rule_format, OF x] f1 [OF x]
    show "count_list ids' x \<le> unat (frames s1 ! x)" by (simp add: ids split: if_splits)
  qed
  have b1: "Suc j + k \<le> 2 ^ 20" using Suc.prems(4) by simp
  from Suc.IH [OF ids(2) pages counts b1] obtain s' where
    s': "destroy_loop ums base (Suc j) k s1 = Inr s'"
        "length (frames s') = length (frames s1)"
        "\<forall>x < length (frames s1). unat (frames s' ! x) + count_list ids' x = unat (frames s1 ! x)"
        "memregions s' = memregions s1" "next_memregion_idx s' = next_memregion_idx s1"
    by (elim exE conjE) (rule that; assumption)
  have d: "destroy_loop ums base j (Suc k) s = Inr s'" using s1(1) s'(1) by simp
  have final: "\<forall>x < length (frames s). unat (frames s' ! x) + count_list ids x = unat (frames s ! x)"
  proof (intro allI impI)
    fix x
    assume x: "x < length (frames s)"
    from s'(3) [rule_format, of x] x len1 f1 [OF x] pos Suc.prems(3) [rule_format, OF x]
    show "unat (frames s' ! x) + count_list ids x = unat (frames s ! x)"
      by (simp add: ids split: if_splits)
  qed
  from d s'(2) len1 final s'(4,5) s1(5,6) show ?case by (intro exI [of _ s']) simp
qed

section \<open>The two system calls, step by step\<close>

lemma memset_loop_fields:
  "memset_loop base i k s = Inr s' \<Longrightarrow>
     pd s' = pd s \<and> pt s' = pt s \<and> frames s' = frames s
     \<and> memregions s' = memregions s \<and> next_memregion_idx s' = next_memregion_idx s
     \<and> next_available_frame s' = next_available_frame s"
proof (induction k arbitrary: i s)
  case 0
  then show ?case by simp
next
  case (Suc k)
  then show ?case
    by (fastforce split: option.splits if_splits)
qed

lemma region_entry:
  assumes al: "base mod PAGE_SIZE = 0" and n: "n \<le> 0xfff"
  shows "(base OR of_nat n) AND 0xfffff000 = base"
    and "(base OR of_nat n) AND 0xfff = of_nat n"
    and "unat (of_nat n :: u32) = n"
proof -
  show u: "unat (of_nat n :: u32) = n" using n by (simp add: unat_of_nat)
  have "(of_nat n :: u32) < 2 ^ 12" using n u by (simp add: word_less_nat_alt)
  then have m: "(of_nat n :: u32) AND mask 12 = of_nat n" by (rule less_mask_eq)
  have "((of_nat n :: u32) AND mask 12) AND NOT (mask 12) = 0" by (simp add: and.assoc)
  then have z: "(of_nat n :: u32) AND NOT (mask 12) = 0" by (simp only: m)
  have b1: "base AND NOT (mask 12) = base"
    using aligned_high_bits [OF al] by (simp only: addr_mask_not)
  have b2: "base AND mask 12 = 0"
    using aligned_low_bits [OF al] by (simp only: flags_mask_mask)
  show "(base OR of_nat n) AND 0xfffff000 = base"
    unfolding addr_mask_not word_ao_dist b1 z by simp
  show "(base OR of_nat n) AND 0xfff = of_nat n"
    unfolding flags_mask_mask word_ao_dist b2 m by simp
qed


lemma page_on_fields:
  "pd s' = pd s \<Longrightarrow> pt s' = pt s \<Longrightarrow> page_on ums s' va x = page_on ums s va x"
  by (simp add: page_on_def)


lemma new_pages_success:
  assumes new: "u_new_pages ums args_ok base len s = Inr (0, s1)"
  shows "base mod PAGE_SIZE = 0 \<and> len mod 4096 = 0 \<and> len \<le> 0xfff * 4096
    \<and> (\<exists>sa sb. create_loop ums base 0 (nat (len div 4096)) s = Inr (0, sa)
         \<and> memset_loop base 0 (nat (len div 4096)) sa = Inr sb
         \<and> unat (next_memregion_idx sb) < PAGE_TABLE_ENTRIES
         \<and> s1 = sb\<lparr>memregions := (memregions sb)(unat (next_memregion_idx sb) :=
                       base OR of_nat (nat (len div 4096))),
                 next_memregion_idx :=
                   (if next_region ((memregions sb)(unat (next_memregion_idx sb) :=
                          base OR of_nat (nat (len div 4096)))) (unat (next_memregion_idx sb))
                        ((unat (next_memregion_idx sb) + 1) mod PAGE_TABLE_ENTRIES)
                       = unat (next_memregion_idx sb)
                    then - 1
                    else of_nat (next_region ((memregions sb)(unat (next_memregion_idx sb) :=
                          base OR of_nat (nat (len div 4096)))) (unat (next_memregion_idx sb))
                        ((unat (next_memregion_idx sb) + 1) mod PAGE_TABLE_ENTRIES)))\<rparr>)"
proof -
  have e: "ERR_INVALID_ARG \<noteq> 0" "ERR_WORN_OUT_NEW_PAGES \<noteq> 0" by (simp_all add: err_defs)
  from new e have a: "args_ok"
    unfolding u_new_pages_def by (cases args_ok) simp_all
  from new e a have b: "base mod PAGE_SIZE = 0"
    unfolding u_new_pages_def by (cases "base mod PAGE_SIZE = 0") simp_all
  from new e a b have l: "\<not> (len < 0 \<or> len mod 4096 \<noteq> 0 \<or> len > 0xfff * 4096)"
    unfolding u_new_pages_def
    by (cases "len < 0 \<or> len mod 4096 \<noteq> 0 \<or> len > 0xfff * 4096") simp_all
  from new e a b l have w: "next_memregion_idx s \<noteq> - 1"
    unfolding u_new_pages_def by (cases "next_memregion_idx s = - 1") simp_all
  let ?n = "nat (len div 4096)"
  have red: "u_new_pages ums args_ok base len s =
      (case create_loop ums base 0 ?n s of
          Inl f \<Rightarrow> Inl f
        | Inr (err, s1) \<Rightarrow>
            if err \<noteq> 0 then Inr (err, s1)
            else case memset_loop base 0 ?n s1 of
              Inl f \<Rightarrow> Inl f
            | Inr s2 \<Rightarrow>
                let entry = base OR of_nat ?n;
                    idx = unat (next_memregion_idx s2)
                in if PAGE_TABLE_ENTRIES \<le> idx then Inl OutOfBounds
                   else let m = (memregions s2)(idx := entry);
                            nextid = next_region m idx ((idx + 1) mod PAGE_TABLE_ENTRIES)
                        in Inr (0, s2\<lparr>memregions := m,
                              next_memregion_idx := (if nextid = idx then - 1 else of_nat nextid)\<rparr>))"
    unfolding u_new_pages_def using a b l w by (simp only: if_False if_True simp_thms Let_def)
  obtain r where r: "create_loop ums base 0 ?n s = r" by simp
  show ?thesis
  proof (cases r)
    case (Inl f)
    with new red r show ?thesis by simp
  next
    case (Inr p)
    obtain err sa where p: "p = (err, sa)" by (cases p)
    show ?thesis
    proof (cases "err = 0")
      case False
      with new red r Inr p show ?thesis by simp
    next
      case True
      note c = r [unfolded Inr p True]
      obtain q where q: "memset_loop base 0 ?n sa = q" by simp
      show ?thesis
      proof (cases q)
        case (Inl f)
        with new red c q show ?thesis by simp
      next
        case (Inr sb)
        note m = q [unfolded Inr]
        have red2: "u_new_pages ums args_ok base len s =
           (let entry = base OR of_nat ?n;
                    idx = unat (next_memregion_idx sb)
                in if PAGE_TABLE_ENTRIES \<le> idx then Inl OutOfBounds
                   else let m = (memregions sb)(idx := entry);
                            nextid = next_region m idx ((idx + 1) mod PAGE_TABLE_ENTRIES)
                        in Inr (0, sb\<lparr>memregions := m,
                              next_memregion_idx := (if nextid = idx then - 1 else of_nat nextid)\<rparr>))"
          unfolding red c by (simp add: m)
        have i: "\<not> PAGE_TABLE_ENTRIES \<le> unat (next_memregion_idx sb)"
          using new unfolding red2 Let_def
          by (cases "PAGE_TABLE_ENTRIES \<le> unat (next_memregion_idx sb)") simp_all
        from new [unfolded red2 Let_def] i
        have "s1 = sb\<lparr>memregions := (memregions sb)(unat (next_memregion_idx sb) :=
                       base OR of_nat ?n),
                 next_memregion_idx :=
                   (if next_region ((memregions sb)(unat (next_memregion_idx sb) :=
                          base OR of_nat ?n)) (unat (next_memregion_idx sb))
                        ((unat (next_memregion_idx sb) + 1) mod PAGE_TABLE_ENTRIES)
                       = unat (next_memregion_idx sb)
                    then - 1
                    else of_nat (next_region ((memregions sb)(unat (next_memregion_idx sb) :=
                          base OR of_nat ?n)) (unat (next_memregion_idx sb))
                        ((unat (next_memregion_idx sb) + 1) mod PAGE_TABLE_ENTRIES)))\<rparr>"
          by (simp only: if_False sum.inject prod.inject simp_thms)
        with b l c m i show ?thesis by (intro conjI exI [of _ sa] exI [of _ sb]) simp_all
      qed
    qed
  qed
qed

lemma next_region_free:
  "idx < PAGE_TABLE_ENTRIES \<Longrightarrow>
     next_region m idx nextid = idx \<or> m (next_region m idx nextid) = 0"
proof (induction m idx nextid rule: next_region.induct)
  case (1 m idx nextid)
  show ?case
  proof (cases "nextid = idx \<or> m nextid = 0")
    case True
    with 1(2) show ?thesis by (subst (1 2) next_region.simps) auto
  next
    case False
    with 1(2) have "next_region m idx nextid
        = next_region m idx ((nextid + 1) mod PAGE_TABLE_ENTRIES)"
      by (subst next_region.simps) auto
    moreover have "next_region m idx ((nextid + 1) mod PAGE_TABLE_ENTRIES) = idx
        \<or> m (next_region m idx ((nextid + 1) mod PAGE_TABLE_ENTRIES)) = 0"
      using 1 False by auto
    ultimately show ?thesis by simp
  qed
qed

lemma create_loop_inv:
  assumes al: "ums mod PAGE_SIZE = 0" and nz: "ums \<noteq> 0"
  shows "unat ums + length (frames s) * 4096 \<le> 2 ^ 32 \<Longrightarrow> hint_in_range s \<Longrightarrow> pt_clean s
    \<Longrightarrow> create_loop ums base i k s = Inr (0, s') \<Longrightarrow> hint_in_range s' \<and> pt_clean s'"
proof (induction k arbitrary: i s)
  case 0
  then show ?case by simp
next
  case (Suc k)
  let ?va = "base + of_nat i * PAGE_SIZE"
  from Suc.prems(4) obtain err s1 where
    cp: "create_page ums ?va MEM_TYPE_USER 0 s = Inr (err, s1)"
    by (auto split: sum.splits)
  from Suc.prems(4) cp have err: "err = 0" by (auto split: sum.splits if_splits)
  from Suc.prems(4) cp err have cl: "create_loop ums base (Suc i) k s1 = Inr (0, s')" by simp
  from create_page_user [OF al nz Suc.prems(1,2,3) cp [unfolded err]] obtain n where
    n: "frames s1 = (frames s)[n := frames s ! n + 1]" "hint_in_range s1" "pt_clean s1"
    by (elim exE conjE) (rule that; assumption)
  have fit1: "unat ums + length (frames s1) * 4096 \<le> 2 ^ 32" using Suc.prems(1) by (simp add: n(1))
  from Suc.IH [OF fit1 n(2) n(3) cl] show ?case .
qed

lemma destroy_page_inv:
  assumes d: "destroy_page ums va s = Inr (r, s')"
    and h: "hint_in_range s" and cl: "pt_clean s"
  shows "hint_in_range s' \<and> pt_clean s'"
proof (cases "s' = s")
  case True
  with h cl show ?thesis by simp
next
  case False
  let ?l = "(PDE_OFFSET va, PTE_OFFSET va)"
  from d False have g: "get_pte va s = Some ?l"
    by (auto simp add: destroy_page_def get_pte_def split: if_splits option.splits)
  from d False g obtain e where
    ff: "free_frame ums (PE_GETADDR (pte_at s ?l)) (set_pte ?l 0 s) = Inr (e, s')"
    by (auto simp add: destroy_page_def Let_def split: if_splits sum.splits)
  note f = free_frame_fields [OF ff]
  have pd': "pd s' = pd s" and pt': "pt s' = (pt s)(PDE_OFFSET va := (pt s (PDE_OFFSET va))(PTE_OFFSET va := 0))"
    using f by (simp_all add: set_pte_def)
  have "hint_in_range s'"
    using ff h
    by (auto simp add: free_frame_def Let_def hint_in_range_def set_pte_def split: if_splits)
  moreover have "pt_clean s'"
    unfolding pt_clean_def
  proof (intro allI impI)
    fix d t
    assume dt: "d < PAGE_TABLE_ENTRIES" "t < PAGE_TABLE_ENTRIES"
      and a: "PE_GETFLAG (pd s' d) PDE_PRESENT \<and> \<not> PE_GETFLAG (pt s' d t) PTE_PRESENT"
    show "\<not> PE_GETFLAG (pt s' d t) PTE_GLOBAL"
    proof (cases "d = PDE_OFFSET va \<and> t = PTE_OFFSET va")
      case True
      then show ?thesis by (simp add: pt' getflag_zero)
    next
      case False
      then have "pt s' d t = pt s d t" by (auto simp add: pt')
      with a cl dt pd' show ?thesis unfolding pt_clean_def by simp
    qed
  qed
  ultimately show ?thesis by simp
qed

lemma destroy_loop_inv:
  "destroy_loop ums base j k s = Inr s' \<Longrightarrow> hint_in_range s \<Longrightarrow> pt_clean s
     \<Longrightarrow> hint_in_range s' \<and> pt_clean s'"
proof (induction k arbitrary: j s)
  case 0
  then show ?case by simp
next
  case (Suc k)
  from Suc.prems(1) obtain err s1 where
    d: "destroy_page ums (base + of_nat j * PAGE_SIZE) s = Inr (err, s1)"
    by (auto split: sum.splits)
  from Suc.prems(1) d have l: "destroy_loop ums base (Suc j) k s1 = Inr s'"
    by (auto split: if_splits)
  from destroy_page_inv [OF d Suc.prems(2,3)] Suc.IH [OF l] show ?case by simp
qed

lemma inv_fields:
  "pd s' = pd s \<Longrightarrow> pt s' = pt s \<Longrightarrow> pt_clean s' = pt_clean s"
  "frames s' = frames s \<Longrightarrow> next_available_frame s' = next_available_frame s
     \<Longrightarrow> hint_in_range s' = hint_in_range s"
  by (simp_all add: pt_clean_def hint_in_range_def)

section \<open>What the paging system calls leave alone\<close>

lemma give_back_fields:
  "give_back ums nf code s = Inr (r, s') \<Longrightarrow>
     memregions s' = memregions s \<and> next_memregion_idx s' = next_memregion_idx s"
  by (auto simp: give_back_def split: sum.splits if_splits dest!: free_frame_fields)

lemma create_page_fields:
  assumes c: "create_page ums va type ref_frame s = Inr (r, s')"
  shows "memregions s' = memregions s \<and> next_memregion_idx s' = next_memregion_idx s"
proof (cases "s' = s")
  case True
  then show ?thesis by simp
next
  case False
  let ?al = "if type \<noteq> MEM_TYPE_BSS \<and> ref_frame = 0 then allocate_frame ums s else Inr (0, s)"
  from c False obtain nf s1 where al: "?al = Inr (nf, s1)"
    by (auto simp: create_page_def split: if_splits sum.splits)
  have s1: "memregions s1 = memregions s \<and> next_memregion_idx s1 = next_memregion_idx s"
    using al allocate_frame_fields [of ums s nf s1] by (auto split: if_splits)
  show ?thesis
  proof (cases "type \<noteq> MEM_TYPE_BSS \<and> ref_frame = 0 \<and> nf = 0")
    case True
    with c False al have "s' = s1" by (auto simp: create_page_def split: if_splits)
    with s1 show ?thesis by simp
  next
    case nofail: False
    show ?thesis
    proof (cases "get_pte va s1")
      case None
      obtain ptr s2 where sm: "smemalign s1 = (ptr, s2)" by fastforce
      have s2: "memregions s2 = memregions s1 \<and> next_memregion_idx s2 = next_memregion_idx s1"
        using sm by (auto simp: smemalign_def split: list.splits)
      show ?thesis
      proof (cases "ptr = 0")
        case True
        with c False al nofail None sm
        have "give_back ums nf ERR_MALLOC_FAIL s2 = Inr (r, s')"
          by (auto simp: create_page_def split: if_splits)
        from give_back_fields [OF this] s1 s2 show ?thesis by simp
      next
        case nz: False
        with c False al nofail None sm s1 s2 show ?thesis
          by (auto simp: create_page_def Let_def set_pte_def split: if_splits)
      qed
    next
      case (Some l)
      show ?thesis
      proof (cases "PE_GETFLAG (pte_at s1 l) PTE_PRESENT")
        case True
        with c False al nofail Some
        have "give_back ums nf ERR_PAGE_ALREADY_PRESENT s1 = Inr (r, s')"
          by (auto simp: create_page_def split: if_splits)
        from give_back_fields [OF this] s1 show ?thesis by simp
      next
        case np: False
        with c False al nofail Some s1 show ?thesis
          by (auto simp: create_page_def Let_def set_pte_def split: if_splits)
      qed
    qed
  qed
qed

lemma create_loop_fields:
  "create_loop ums base i k s = Inr (r, s') \<Longrightarrow>
     memregions s' = memregions s \<and> next_memregion_idx s' = next_memregion_idx s"
proof (induction k arbitrary: i s)
  case 0
  then show ?case by simp
next
  case (Suc k)
  from Suc.prems obtain err s1 where
    cp: "create_page ums (base + of_nat i * PAGE_SIZE) MEM_TYPE_USER 0 s = Inr (err, s1)"
    by (auto split: sum.splits)
  note f1 = create_page_fields [OF cp]
  show ?case
  proof (cases "err = 0")
    case True
    with Suc.prems cp have "create_loop ums base (Suc i) k s1 = Inr (r, s')" by simp
    from Suc.IH [OF this] f1 show ?thesis by simp
  next
    case False
    with Suc.prems cp obtain s2 where "destroy_loop ums base 0 i s1 = Inr s2" "s' = s2"
      by (auto split: sum.splits)
    with destroy_loop_fields [of ums base 0 i s1 s2] f1 show ?thesis by simp
  qed
qed

lemma new_pages_failure:
  assumes new: "u_new_pages ums args_ok base len s = Inr (r, s')" and r: "r \<noteq> 0"
  shows "memregions s' = memregions s \<and> next_memregion_idx s' = next_memregion_idx s"
proof (cases "s' = s")
  case True
  then show ?thesis by simp
next
  case False
  let ?n = "nat (len div 4096)"
  from new False have g: "args_ok" "base mod PAGE_SIZE = 0"
      "\<not> (len < 0 \<or> len mod 4096 \<noteq> 0 \<or> len > 0xfff * 4096)" "next_memregion_idx s \<noteq> - 1"
    by (auto simp add: u_new_pages_def split: if_splits)
  have red: "u_new_pages ums args_ok base len s =
      (case create_loop ums base 0 ?n s of
          Inl f \<Rightarrow> Inl f
        | Inr (err, s1) \<Rightarrow>
            if err \<noteq> 0 then Inr (err, s1)
            else case memset_loop base 0 ?n s1 of
              Inl f \<Rightarrow> Inl f
            | Inr s2 \<Rightarrow>
                let entry = base OR of_nat ?n;
                    idx = unat (next_memregion_idx s2)
                in if PAGE_TABLE_ENTRIES \<le> idx then Inl OutOfBounds
                   else let m = (memregions s2)(idx := entry);
                            nextid = next_region m idx ((idx + 1) mod PAGE_TABLE_ENTRIES)
                        in Inr (0, s2\<lparr>memregions := m,
                              next_memregion_idx := (if nextid = idx then - 1 else of_nat nextid)\<rparr>))"
    unfolding u_new_pages_def using g by (simp only: if_False if_True simp_thms Let_def)
  obtain q where q: "create_loop ums base 0 ?n s = q" by simp
  show ?thesis
  proof (cases q)
    case (Inl f)
    with new red q show ?thesis by simp
  next
    case (Inr p)
    obtain err sa where p: "p = (err, sa)" by (cases p)
    note c = q [unfolded Inr p]
    show ?thesis
    proof (cases "err = 0")
      case False
      with new red c have "s' = sa" by simp
      with create_loop_fields [OF c] show ?thesis by simp
    next
      case True
      have "r = 0"
      proof (cases "memset_loop base 0 ?n sa")
        case (Inl f)
        with new red c True show ?thesis by simp
      next
        case (Inr sb)
        with new red c True show ?thesis
          by (cases "PAGE_TABLE_ENTRIES \<le> unat (next_memregion_idx sb)") (simp_all add: Let_def)
      qed
      with r show ?thesis by simp
    qed
  qed
qed

text \<open>
  A slot that holds a non-zero entry with page count 0, and that the cursor is not on,
  stays as it is through both system calls.
\<close>

lemma new_pages_keeps_slot:
  assumes new: "u_new_pages ums args_ok b len s = Inr (r, s')"
    and i: "i < PAGE_TABLE_ENTRIES" and e: "memregions s i \<noteq> 0"
    and c: "next_memregion_idx s \<noteq> of_nat i"
  shows "memregions s' i = memregions s i \<and> next_memregion_idx s' \<noteq> of_nat i"
proof (cases "r = 0")
  case False
  from new_pages_failure [OF new False] c show ?thesis by simp
next
  case True
  let ?n = "nat (len div 4096)"
  from new_pages_success [OF new [unfolded True]] obtain sa sb where
    cr: "create_loop ums b 0 ?n s = Inr (0, sa)"
    and ms: "memset_loop b 0 ?n sa = Inr sb"
    and isb: "unat (next_memregion_idx sb) < PAGE_TABLE_ENTRIES"
    and s': "s' = sb\<lparr>memregions := (memregions sb)(unat (next_memregion_idx sb) :=
                       b OR of_nat ?n),
                 next_memregion_idx :=
                   (if next_region ((memregions sb)(unat (next_memregion_idx sb) :=
                          b OR of_nat ?n)) (unat (next_memregion_idx sb))
                        ((unat (next_memregion_idx sb) + 1) mod PAGE_TABLE_ENTRIES)
                       = unat (next_memregion_idx sb)
                    then - 1
                    else of_nat (next_region ((memregions sb)(unat (next_memregion_idx sb) :=
                          b OR of_nat ?n)) (unat (next_memregion_idx sb))
                        ((unat (next_memregion_idx sb) + 1) mod PAGE_TABLE_ENTRIES)))\<rparr>"
    by (elim exE conjE) (rule that; assumption)
  have fb: "memregions sb = memregions s" "next_memregion_idx sb = next_memregion_idx s"
    using create_loop_fields [OF cr] memset_loop_fields [OF ms] by simp_all
  let ?k = "unat (next_memregion_idx s)"
  let ?m = "(memregions s)(?k := b OR of_nat ?n)"
  let ?nx = "next_region ?m ?k ((?k + 1) mod PAGE_TABLE_ENTRIES)"
  have k: "?k < PAGE_TABLE_ENTRIES" using isb fb by simp
  have ki: "?k \<noteq> i"
  proof
    assume "?k = i"
    then have "of_nat ?k = (of_nat i :: u32)" by simp
    with c show False by simp
  qed
  have s'': "s' = sb\<lparr>memregions := ?m,
      next_memregion_idx := (if ?nx = ?k then - 1 else of_nat ?nx)\<rparr>"
    using s' by (simp only: fb)
  have m: "memregions s' i = memregions s i" using ki by (simp add: s'')
  have nlt: "?nx < PAGE_TABLE_ENTRIES"
    by (rule next_region_lt) (simp add: PAGE_TABLE_ENTRIES_def)
  have ui: "unat (of_nat i :: u32) = i" using i by (simp add: unat_of_nat PAGE_TABLE_ENTRIES_def)
  have un: "unat (of_nat ?nx :: u32) = ?nx"
    using nlt by (simp add: unat_of_nat PAGE_TABLE_ENTRIES_def)
  have "next_memregion_idx s' \<noteq> of_nat i"
  proof (cases "?nx = ?k")
    case True
    then have "next_memregion_idx s' = - 1" by (simp add: s'')
    moreover have "(of_nat i :: u32) \<noteq> - 1" using cursor_valid [of "of_nat i"] i ui by simp
    ultimately show ?thesis by simp
  next
    case False
    then have cs: "next_memregion_idx s' = of_nat ?nx" by (simp add: s'')
    from next_region_free [OF k, of ?m "(?k + 1) mod PAGE_TABLE_ENTRIES"] False
    have "?m ?nx = 0" by simp
    moreover have "?m i \<noteq> 0" using ki e by simp
    ultimately have "?nx \<noteq> i" by auto
    then have "(of_nat ?nx :: u32) \<noteq> of_nat i" using ui un by metis
    with cs show ?thesis by simp
  qed
  with m show ?thesis by simp
qed

lemma remove_pages_keeps_slot:
  assumes rem: "u_remove_pages ums b s = Inr (r, s')"
    and i: "i < PAGE_TABLE_ENTRIES" and z: "memregions s i AND 0xfff = 0"
    and c: "next_memregion_idx s \<noteq> of_nat i"
  shows "memregions s' i = memregions s i \<and> next_memregion_idx s' \<noteq> of_nat i"
proof -
  have m: "memregions s' i = memregions s i"
    using rem z by (rule remove_pages_keeps_empty_region)
  have "next_memregion_idx s' \<noteq> of_nat i"
  proof (cases "next_memregion_idx s' = next_memregion_idx s")
    case True
    with c show ?thesis by simp
  next
    case False
    with rem have al: "b mod PAGE_SIZE = 0"
      by (auto simp add: u_remove_pages_def split: if_splits)
    from rem False al obtain reg n where
      f: "find_region (memregions s) b 0 PAGE_TABLE_ENTRIES = Some (reg, n)"
      by (auto simp add: u_remove_pages_def split: option.splits)
    from find_region_Some [OF f]
    have reg: "reg < PAGE_TABLE_ENTRIES" "n = memregions s reg AND 0xfff" by simp_all
    from rem False al f have nz: "n \<noteq> 0"
      by (auto simp add: u_remove_pages_def split: if_splits)
    from rem al f nz obtain s1 where
      d: "destroy_loop ums b 0 (unat n) s = Inr s1"
      and s': "s' = s1\<lparr>memregions := (memregions s1)(reg := 0),
                    next_memregion_idx := (if next_memregion_idx s1 = - 1 then of_nat reg
                                           else next_memregion_idx s1)\<rparr>"
      by (auto simp add: u_remove_pages_def split: sum.splits)
    from destroy_loop_fields [OF d] s' False
    have cs: "next_memregion_idx s' = of_nat reg" by (auto split: if_splits)
    have "reg \<noteq> i" using reg(2) nz z by auto
    moreover have "unat (of_nat reg :: u32) = reg" "unat (of_nat i :: u32) = i"
      using reg(1) i by (simp_all add: unat_of_nat PAGE_TABLE_ENTRIES_def)
    ultimately have "(of_nat reg :: u32) \<noteq> of_nat i" by metis
    with cs show ?thesis by simp
  qed
  with m show ?thesis by simp
qed

lemma paging_run_keeps_slot:
  assumes i: "i < PAGE_TABLE_ENTRIES"
  shows "paging_run ums cs s = Inr (rs, s') \<Longrightarrow> memregions s i \<noteq> 0
    \<Longrightarrow> memregions s i AND 0xfff = 0 \<Longrightarrow> next_memregion_idx s \<noteq> of_nat i
    \<Longrightarrow> memregions s' i = memregions s i \<and> next_memregion_idx s' \<noteq> of_nat i"
proof (induction cs arbitrary: s rs)
  case Nil
  then show ?case by simp
next
  case (Cons c cs)
  show ?case
  proof (cases c)
    case (NewPages ok b len)
    with Cons.prems(1) obtain r s1 where
      st: "u_new_pages ums ok b len s = Inr (r, s1)"
      by (auto split: sum.splits)
    with Cons.prems(1) NewPages obtain rs1 where
      run: "paging_run ums cs s1 = Inr (rs1, s')"
      by (auto split: sum.splits)
    from new_pages_keeps_slot [OF st i Cons.prems(2,4)]
    have k: "memregions s1 i = memregions s i" "next_memregion_idx s1 \<noteq> of_nat i" by simp_all
    from Cons.IH [OF run] k Cons.prems(2,3) show ?thesis by simp
  next
    case (RemovePages b)
    with Cons.prems(1) obtain r s1 where
      st: "u_remove_pages ums b s = Inr (r, s1)"
      by (auto split: sum.splits)
    with Cons.prems(1) RemovePages obtain rs1 where
      run: "paging_run ums cs s1 = Inr (rs1, s')"
      by (auto split: sum.splits)
    from remove_pages_keeps_slot [OF st i Cons.prems(3,4)]
    have k: "memregions s1 i = memregions s i" "next_memregion_idx s1 \<noteq> of_nat i" by simp_all
    from Cons.IH [OF run] k Cons.prems(2,3) show ?thesis by simp
  qed
qed

section \<open>The paging system calls on the example state\<close>

lemma paging_example_numbers:
  "PDE_OFFSET 0x1002000 = 4" "PTE_OFFSET 0x1002000 = 2"
  "(0x1002000 :: u32) mod PAGE_SIZE = 0" "(0x1001000 :: u32) mod PAGE_SIZE = 0"
  "FRAME_ADDR 0x1000000 1 = 0x1001000"
  "FRAME_ID 0x1000000 0x1001000 = 1"
  "fill_pte MEM_TYPE_USER 0 0x1001000 zf 0 = 0x1001007"
  "PE_GETADDR 0x1001007 = 0x1001000"
  "(0x1002001 :: u32) AND 0xfffff000 = 0x1002000" "(0x1002001 :: u32) AND 0xfff = 1"
  "(0x1002000 :: u32) AND 0xfffff000 = 0x1002000" "(0x1002000 :: u32) AND 0xfff = 0"
  "(0x1002000 :: u32) OR 1 = 0x1002001"
  by (simp_all add: PDE_OFFSET_def PTE_OFFSET_def DIR_MASK_def PAGE_MASK_def pe_defs
      FRAME_ID_def FRAME_ADDR_def PAGE_SIZE_def fill_pte_def flag_defs)

lemma create_page_example:
  assumes "frames s = [255, 0, 2, 1]" "next_available_frame s = 1" "pd s 4 = 0x7007"
    "pt s 4 2 = 0"
  shows "create_page 0x1000000 0x1002000 MEM_TYPE_USER 0 s
     = Inr (0, s\<lparr>frames := [255, 1, 2, 1], next_available_frame := - 1,
                  pt := (pt s)(4 := (pt s 4)(2 := 0x1001007))\<rparr>)"
proof -
  have "next_free [255, 1, 2, 1] (Suc (Suc (Suc (Suc 0)))) 1 = - 1" by simp
  moreover have "(4::nat) = Suc (Suc (Suc (Suc 0)))" by simp
  ultimately have nf: "next_free [255, 1, 2, 1] 4 1 = - 1" by (simp only:)
  have g: "u_get_frame 0x1000000 0x1001000 s
      = Inr (0, s\<lparr>frames := [255, 1, 2, 1], next_available_frame := - 1\<rparr>)"
    using assms(1,2) nf by (simp add: u_get_frame_def Let_def paging_example_numbers)
  have a: "allocate_frame 0x1000000 s
      = Inr (0x1001000, s\<lparr>frames := [255, 1, 2, 1], next_available_frame := - 1\<rparr>)"
    using assms(2) g
    by (simp add: allocate_frame_def u_allocate_frame_def Let_def paging_example_numbers)
  have p: "get_pte 0x1002000 (s\<lparr>frames := [255, 1, 2, 1], next_available_frame := - 1\<rparr>)
      = Some (4, 2)"
    using assms(3) by (simp add: get_pte_def paging_example_numbers getflag_num flag_defs)
  show ?thesis
    using assms(4)
    by (simp add: create_page_def a p paging_example_numbers pte_at_def set_pte_def
        getflag_zero)
qed

lemma destroy_page_example:
  assumes "frames s = [255, 1, 2, 1]" "next_available_frame s = - 1" "pd s 4 = 0x7007"
    "pt s 4 2 = 0x1001007"
  shows "destroy_page 0x1000000 0x1002000 s
     = Inr (0, s\<lparr>pt := (pt s)(4 := (pt s 4)(2 := 0)),
                  frames := [255, 0, 2, 1], next_available_frame := 1\<rparr>)"
proof -
  have g: "get_pte 0x1002000 s = Some (4, 2)"
    using assms(3) by (simp add: get_pte_def paging_example_numbers getflag_num flag_defs)
  have f: "free_frame 0x1000000 0x1001000 (set_pte (4, 2) 0 s)
      = Inr (0, s\<lparr>pt := (pt s)(4 := (pt s 4)(2 := 0)),
                  frames := [255, 0, 2, 1], next_available_frame := 1\<rparr>)"
    using assms(1,2)
    by (simp add: free_frame_def Let_def paging_example_numbers set_pte_def)
  show ?thesis
    using assms(4)
    by (simp add: destroy_page_def g f pte_at_def paging_example_numbers getflag_num flag_defs)
qed

lemma new_pages_example:
  assumes "frames s = [255, 0, 2, 1]" "next_available_frame s = 1" "pd s 4 = 0x7007"
    "pt s 4 2 = 0"
    and "unat (next_memregion_idx s) = i" "i < PAGE_TABLE_ENTRIES"
    and "next_region ((memregions s)(i := 0x1002001)) i ((i + 1) mod PAGE_TABLE_ENTRIES) = n"
    and "n \<noteq> i"
  shows "u_new_pages 0x1000000 True 0x1002000 4096 s
     = Inr (0, s\<lparr>frames := [255, 1, 2, 1], next_available_frame := - 1,
                  pt := (pt s)(4 := (pt s 4)(2 := 0x1001007)),
                  phys := (phys s)(0x1001000 := zero_page),
                  memregions := (memregions s)(i := 0x1002001),
                  next_memregion_idx := of_nat n\<rparr>)"
proof -
  let ?s1 = "s\<lparr>frames := [255, 1, 2, 1], next_available_frame := - 1,
                  pt := (pt s)(4 := (pt s 4)(2 := 0x1001007))\<rparr>"
  note c = create_page_example [OF assms(1-4)]
  have g: "get_pte 0x1002000 ?s1 = Some (4, 2)"
    using assms(3) by (simp add: get_pte_def paging_example_numbers getflag_num flag_defs)
  have pa: "pte_at ?s1 (4, 2) = 0x1001007" by (simp add: pte_at_def)
  have w: "next_memregion_idx s \<noteq> - 1"
    using cursor_valid [of "next_memregion_idx s"] assms(5,6) by simp
  show ?thesis
    using w assms(5-8)
    by (simp add: u_new_pages_def Let_def c g pa paging_example_numbers getflag_num flag_defs)
qed

lemma new_pages_zero_example:
  assumes "unat (next_memregion_idx s) = i" "i < PAGE_TABLE_ENTRIES"
    and "next_region ((memregions s)(i := b)) i ((i + 1) mod PAGE_TABLE_ENTRIES) = n"
    and "n \<noteq> i" and "b mod PAGE_SIZE = 0"
  shows "u_new_pages ums True b 0 s
     = Inr (0, s\<lparr>memregions := (memregions s)(i := b), next_memregion_idx := of_nat n\<rparr>)"
proof -
  have w: "next_memregion_idx s \<noteq> - 1"
    using cursor_valid [of "next_memregion_idx s"] assms(1,2) by simp
  show ?thesis using w assms by (simp add: u_new_pages_def Let_def)
qed

lemma remove_pages_example:
  assumes "frames s = [255, 1, 2, 1]" "next_available_frame s = - 1" "pd s 4 = 0x7007"
    "pt s 4 2 = 0x1001007"
    and "find_region (memregions s) 0x1002000 0 PAGE_TABLE_ENTRIES = Some (r, 1)"
    and "next_memregion_idx s \<noteq> - 1"
  shows "u_remove_pages 0x1000000 0x1002000 s
     = Inr (0, s\<lparr>pt := (pt s)(4 := (pt s 4)(2 := 0)),
                  frames := [255, 0, 2, 1], next_available_frame := 1,
                  memregions := (memregions s)(r := 0)\<rparr>)"
  using assms(5,6) destroy_page_example [OF assms(1-4)]
  by (simp add: u_remove_pages_def paging_example_numbers)

lemma remove_pages_empty_example:
  assumes "find_region (memregions s) b 0 PAGE_TABLE_ENTRIES = Some (r, 0)"
    and "b mod PAGE_SIZE = 0"
  shows "u_remove_pages ums b s = Inr (- 2, s)"
  using assms by (simp add: u_remove_pages_def)


lemma vm_paging_vm:
  "frames vm_paging = [255, 0, 2, 1]" "next_available_frame vm_paging = 1"
  "pd vm_paging 4 = 0x7007" "pt vm_paging = (\<lambda>i j. 0)"
  "unat (next_memregion_idx vm_paging) = 2"
  by (simp_all add: vm_paging_def vm_example_def)

lemma next_region_example:
  "m (Suc i) = 0 \<Longrightarrow> Suc i < PAGE_TABLE_ENTRIES \<Longrightarrow>
     next_region m i ((i + 1) mod PAGE_TABLE_ENTRIES) = Suc i"
  by (subst next_region.simps) (simp add: PAGE_TABLE_ENTRIES_def)

text \<open>Runs of the two system calls from \<open>vm_paging\<close>.\<close>

lemma run_new_remove:
  "paging_run 0x1000000 [NewPages True 0x1002000 4096, RemovePages 0x1002000] vm_paging
     = Inr ([0, 0], vm_paging\<lparr>phys := (phys vm_paging)(0x1001000 := zero_page),
                              next_memregion_idx := 3\<rparr>)"
proof -
  let ?s1 = "vm_paging\<lparr>frames := [255, 1, 2, 1], next_available_frame := - 1,
                  pt := (pt vm_paging)(4 := (pt vm_paging 4)(2 := 0x1001007)),
                  phys := (phys vm_paging)(0x1001000 := zero_page),
                  memregions := (memregions vm_paging)(2 := 0x1002001),
                  next_memregion_idx := 3\<rparr>"
  have nr: "next_region ((memregions vm_paging)(2 := 0x1002001)) 2
      ((2 + 1) mod PAGE_TABLE_ENTRIES) = Suc 2"
    by (rule next_region_example) (simp_all add: vm_paging_fields PAGE_TABLE_ENTRIES_def)
  have "pt vm_paging 4 2 = 0" "(2::nat) < PAGE_TABLE_ENTRIES" "Suc 2 \<noteq> 2"
    by (simp_all add: vm_paging_vm PAGE_TABLE_ENTRIES_def)
  from new_pages_example [OF vm_paging_vm(1,2,3) this(1) vm_paging_vm(5) this(2) nr this(3)]
  have new: "u_new_pages 0x1000000 True 0x1002000 4096 vm_paging = Inr (0, ?s1)"
    by simp
  have f: "find_region (memregions ?s1) 0x1002000 0 PAGE_TABLE_ENTRIES
      = Some (2, memregions ?s1 2 AND 0xfff)"
    by (rule find_region_first)
       (auto simp add: vm_paging_fields paging_example_numbers PAGE_TABLE_ENTRIES_def)
  then have f': "find_region (memregions ?s1) 0x1002000 0 PAGE_TABLE_ENTRIES = Some (2, 1)"
    by (simp add: paging_example_numbers)
  have rem: "u_remove_pages 0x1000000 0x1002000 ?s1
     = Inr (0, ?s1\<lparr>pt := (pt ?s1)(4 := (pt ?s1 4)(2 := 0)),
                  frames := [255, 0, 2, 1], next_available_frame := 1,
                  memregions := (memregions ?s1)(2 := 0)\<rparr>)"
    by (rule remove_pages_example [OF _ _ _ _ f']) (simp_all add: vm_paging_vm)
  show ?thesis
    apply (simp add: new rem)
    apply (simp add: vm_paging_def vm_example_def fun_eq_iff)
    done
qed


lemma run_zero_remove:
  "paging_run 0x1000000 [NewPages True 0x1002000 0, RemovePages 0x1002000] vm_paging
     = Inr ([0, - 2], vm_paging\<lparr>memregions := (memregions vm_paging)(2 := 0x1002000),
                                next_memregion_idx := 3\<rparr>)"
proof -
  let ?z = "vm_paging\<lparr>memregions := (memregions vm_paging)(2 := 0x1002000),
                      next_memregion_idx := 3\<rparr>"
  have nr: "next_region ((memregions vm_paging)(2 := 0x1002000)) 2
      ((2 + 1) mod PAGE_TABLE_ENTRIES) = Suc 2"
    by (rule next_region_example) (simp_all add: vm_paging_fields PAGE_TABLE_ENTRIES_def)
  have "(2::nat) < PAGE_TABLE_ENTRIES" "Suc 2 \<noteq> 2" by (simp_all add: PAGE_TABLE_ENTRIES_def)
  from new_pages_zero_example [OF vm_paging_vm(5) this(1) nr this(2) paging_example_numbers(3)]
  have new: "u_new_pages 0x1000000 True 0x1002000 0 vm_paging = Inr (0, ?z)" by simp
  have "find_region (memregions ?z) 0x1002000 0 PAGE_TABLE_ENTRIES
      = Some (2, memregions ?z 2 AND 0xfff)"
    by (rule find_region_first)
       (auto simp add: vm_paging_fields paging_example_numbers PAGE_TABLE_ENTRIES_def)
  then have f: "find_region (memregions ?z) 0x1002000 0 PAGE_TABLE_ENTRIES = Some (2, 0)"
    by (simp add: paging_example_numbers)
  note rem = remove_pages_empty_example [OF f paging_example_numbers(3), of "0x1000000"]
  show ?thesis by (simp add: new rem)
qed

lemma run_zero_new_remove:
  "map_sum id fst (paging_run 0x1000000
       [NewPages True 0x1002000 0, NewPages True 0x1002000 4096, RemovePages 0x1002000]
       vm_paging) = Inr [0, 0, - 2]"
proof -
  let ?z = "vm_paging\<lparr>memregions := (memregions vm_paging)(2 := 0x1002000),
                      next_memregion_idx := 3\<rparr>"
  let ?z1 = "?z\<lparr>frames := [255, 1, 2, 1], next_available_frame := - 1,
                  pt := (pt ?z)(4 := (pt ?z 4)(2 := 0x1001007)),
                  phys := (phys ?z)(0x1001000 := zero_page),
                  memregions := (memregions ?z)(3 := 0x1002001),
                  next_memregion_idx := 4\<rparr>"
  have nr: "next_region ((memregions vm_paging)(2 := 0x1002000)) 2
      ((2 + 1) mod PAGE_TABLE_ENTRIES) = Suc 2"
    by (rule next_region_example) (simp_all add: vm_paging_fields PAGE_TABLE_ENTRIES_def)
  have "(2::nat) < PAGE_TABLE_ENTRIES" "Suc 2 \<noteq> 2" by (simp_all add: PAGE_TABLE_ENTRIES_def)
  from new_pages_zero_example [OF vm_paging_vm(5) this(1) nr this(2) paging_example_numbers(3)]
  have new0: "u_new_pages 0x1000000 True 0x1002000 0 vm_paging = Inr (0, ?z)" by simp
  have nr1: "next_region ((memregions ?z)(3 := 0x1002001)) 3
      ((3 + 1) mod PAGE_TABLE_ENTRIES) = Suc 3"
    by (rule next_region_example) (simp_all add: vm_paging_fields PAGE_TABLE_ENTRIES_def)
  have z: "frames ?z = [255, 0, 2, 1]" "next_available_frame ?z = 1" "pd ?z 4 = 0x7007"
    "pt ?z 4 2 = 0" "unat (next_memregion_idx ?z) = 3" "(3::nat) < PAGE_TABLE_ENTRIES"
    "Suc 3 \<noteq> 3"
    by (simp_all add: vm_paging_vm PAGE_TABLE_ENTRIES_def)
  from new_pages_example [OF z(1-6) nr1 z(7)]
  have new1: "u_new_pages 0x1000000 True 0x1002000 4096 ?z = Inr (0, ?z1)" by simp
  have "find_region (memregions ?z1) 0x1002000 0 PAGE_TABLE_ENTRIES
      = Some (2, memregions ?z1 2 AND 0xfff)"
    by (rule find_region_first)
       (auto simp add: vm_paging_fields paging_example_numbers PAGE_TABLE_ENTRIES_def)
  then have f: "find_region (memregions ?z1) 0x1002000 0 PAGE_TABLE_ENTRIES = Some (2, 0)"
    by (simp add: paging_example_numbers)
  note rem = remove_pages_empty_example [OF f paging_example_numbers(3), of "0x1000000"]
  show ?thesis using new0 new1 rem by simp
qed

lemma run_new_zero_remove:
  "map_sum id fst (paging_run 0x1000000
       [NewPages True 0x1002000 4096, NewPages True 0x1002000 0, RemovePages 0x1002000]
       vm_paging) = Inr [0, 0, 0]"
proof -
  let ?s1 = "vm_paging\<lparr>frames := [255, 1, 2, 1], next_available_frame := - 1,
                  pt := (pt vm_paging)(4 := (pt vm_paging 4)(2 := 0x1001007)),
                  phys := (phys vm_paging)(0x1001000 := zero_page),
                  memregions := (memregions vm_paging)(2 := 0x1002001),
                  next_memregion_idx := 3\<rparr>"
  let ?s2 = "?s1\<lparr>memregions := (memregions ?s1)(3 := 0x1002000), next_memregion_idx := 4\<rparr>"
  have nr: "next_region ((memregions vm_paging)(2 := 0x1002001)) 2
      ((2 + 1) mod PAGE_TABLE_ENTRIES) = Suc 2"
    by (rule next_region_example) (simp_all add: vm_paging_fields PAGE_TABLE_ENTRIES_def)
  have "pt vm_paging 4 2 = 0" "(2::nat) < PAGE_TABLE_ENTRIES" "Suc 2 \<noteq> 2"
    by (simp_all add: vm_paging_vm PAGE_TABLE_ENTRIES_def)
  from new_pages_example [OF vm_paging_vm(1,2,3) this(1) vm_paging_vm(5) this(2) nr this(3)]
  have new1: "u_new_pages 0x1000000 True 0x1002000 4096 vm_paging = Inr (0, ?s1)"
    by simp
  have nr0: "next_region ((memregions ?s1)(3 := 0x1002000)) 3
      ((3 + 1) mod PAGE_TABLE_ENTRIES) = Suc 3"
    by (rule next_region_example) (simp_all add: vm_paging_fields PAGE_TABLE_ENTRIES_def)
  have s1: "unat (next_memregion_idx ?s1) = 3" "(3::nat) < PAGE_TABLE_ENTRIES" "Suc 3 \<noteq> 3"
    by (simp_all add: PAGE_TABLE_ENTRIES_def)
  from new_pages_zero_example [OF s1(1,2) nr0 s1(3) paging_example_numbers(3), of "0x1000000"]
  have new0: "u_new_pages 0x1000000 True 0x1002000 0 ?s1 = Inr (0, ?s2)" by simp
  have "find_region (memregions ?s2) 0x1002000 0 PAGE_TABLE_ENTRIES
      = Some (2, memregions ?s2 2 AND 0xfff)"
    by (rule find_region_first)
       (auto simp add: vm_paging_fields paging_example_numbers PAGE_TABLE_ENTRIES_def)
  then have f: "find_region (memregions ?s2) 0x1002000 0 PAGE_TABLE_ENTRIES = Some (2, 1)"
    by (simp add: paging_example_numbers)
  have rem: "u_remove_pages 0x1000000 0x1002000 ?s2
     = Inr (0, ?s2\<lparr>pt := (pt ?s2)(4 := (pt ?s2 4)(2 := 0)),
                  frames := [255, 0, 2, 1], next_available_frame := 1,
                  memregions := (memregions ?s2)(2 := 0)\<rparr>)"
    by (rule remove_pages_example [OF _ _ _ _ f]) (simp_all add: vm_paging_vm)
  show ?thesis using new1 new0 rem by simp
qed

lemma run_zero_base:
  "paging_run 0x1000000 [NewPages True 0 0] vm_paging
     = Inr ([0], vm_paging\<lparr>next_memregion_idx := 3\<rparr>)"
proof -
  have nr: "next_region ((memregions vm_paging)(2 := 0)) 2
      ((2 + 1) mod PAGE_TABLE_ENTRIES) = Suc 2"
    by (rule next_region_example) (simp_all add: vm_paging_fields PAGE_TABLE_ENTRIES_def)
  have "(2::nat) < PAGE_TABLE_ENTRIES" "Suc 2 \<noteq> 2" "(0::u32) mod PAGE_SIZE = 0"
    by (simp_all add: PAGE_TABLE_ENTRIES_def)
  from new_pages_zero_example [OF vm_paging_vm(5) this(1) nr this(2,3), of "0x1000000"]
  have "u_new_pages 0x1000000 True 0 0 vm_paging
      = Inr (0, vm_paging\<lparr>memregions := (memregions vm_paging)(2 := 0),
                             next_memregion_idx := 3\<rparr>)" by simp
  moreover have "(memregions vm_paging)(2 := 0) = memregions vm_paging"
    by (simp add: vm_paging_fields fun_eq_iff)
  ultimately show ?thesis by simp
qed

lemma new_pages_worn_out:
  "u_new_pages 0x1000000 True 0x1002000 0 (vm_paging\<lparr>next_memregion_idx := - 1\<rparr>)
     = Inr (ERR_WORN_OUT_NEW_PAGES, vm_paging\<lparr>next_memregion_idx := - 1\<rparr>)"
  by (simp add: u_new_pages_def paging_example_numbers)


lemma new_pages_vm_paging:
  "u_new_pages 0x1000000 True 0x1002000 4096 vm_paging = Inr (0, vm_paged)"
proof -
  have nr: "next_region ((memregions vm_paging)(2 := 0x1002001)) 2
      ((2 + 1) mod PAGE_TABLE_ENTRIES) = Suc 2"
    by (rule next_region_example) (simp_all add: vm_paging_fields PAGE_TABLE_ENTRIES_def)
  have "pt vm_paging 4 2 = 0" "(2::nat) < PAGE_TABLE_ENTRIES" "Suc 2 \<noteq> 2"
    by (simp_all add: vm_paging_vm PAGE_TABLE_ENTRIES_def)
  from new_pages_example [OF vm_paging_vm(1,2,3) this(1) vm_paging_vm(5) this(2) nr this(3)]
  show ?thesis by (simp add: vm_paged_def)
qed

lemma vm_paging_inv:
  "(0x1000000 :: u32) mod PAGE_SIZE = 0"
  "unat (0x1000000 :: u32) + length (frames vm_paging) * 4096 \<le> 2 ^ 32"
  "hint_in_range vm_paging" "pt_clean vm_paging"
  "unat (next_memregion_idx vm_paging) < PAGE_TABLE_ENTRIES"
  "memregions vm_paging (unat (next_memregion_idx vm_paging)) = 0"
  "\<forall>j < unat (next_memregion_idx vm_paging).
      memregions vm_paging j AND 0xfffff000 \<noteq> 0x1002000"
  by (simp_all add: vm_paging_vm vm_paging_fields hint_in_range_def pt_clean_def getflag_zero
      PAGE_SIZE_def PAGE_TABLE_ENTRIES_def)

section \<open>\<open>new_pages\<close> followed by \<open>remove_pages\<close>\<close>

text \<open>
  C6, with the conditions it needs and with what happens to the cursor. Let
  \<open>USER_MEM_START\<close> be page-aligned and not 0, let the frame table fit the address
  space, and let the state satisfy \<open>hint_in_range\<close> and \<open>pt_clean\<close>; let the cursor
  of the region table be a slot of the table, let that slot be empty, and let no slot
  before it have the base \<open>base\<close>. If \<open>new_pages(base, len)\<close> with \<open>len > 0\<close>
  returns 0, then \<open>remove_pages(base)\<close> returns 0, and after it the entries of the
  region table and the frame counters are what they were before \<open>new_pages\<close>. The
  cursor is not: \<open>new_pages\<close> has moved it off its slot, and \<open>remove_pages\<close> leaves
  it there, except when \<open>new_pages\<close> filled the table and set the cursor to \<open>-1\<close>,
  in which case \<open>remove_pages\<close> puts it back on the slot it has freed. The conditions
  on the state hold again afterwards.
\<close>

theorem new_pages_remove_pages:
  assumes al: "ums mod PAGE_SIZE = 0" and nz: "ums \<noteq> 0"
    and fit: "unat ums + length (frames s) * 4096 \<le> 2 ^ 32"
    and h: "hint_in_range s" and cl: "pt_clean s"
    and idx: "unat (next_memregion_idx s) < PAGE_TABLE_ENTRIES"
    and free: "memregions s (unat (next_memregion_idx s)) = 0"
    and first: "\<forall>j < unat (next_memregion_idx s). memregions s j AND 0xfffff000 \<noteq> base"
    and len: "0 < len"
    and new: "u_new_pages ums args_ok base len s = Inr (0, s1)"
  shows "\<exists>s2. u_remove_pages ums base s1 = Inr (0, s2)
           \<and> memregions s2 = memregions s \<and> frames s2 = frames s
           \<and> next_memregion_idx s1 \<noteq> next_memregion_idx s
           \<and> next_memregion_idx s2 =
               (if next_memregion_idx s1 = - 1 then next_memregion_idx s
                else next_memregion_idx s1)
           \<and> hint_in_range s2 \<and> pt_clean s2
           \<and> unat (next_memregion_idx s2) < PAGE_TABLE_ENTRIES
           \<and> memregions s2 (unat (next_memregion_idx s2)) = 0"
proof -
  let ?i = "unat (next_memregion_idx s)"
  let ?n = "nat (len div 4096)"
  from new_pages_success [OF new] obtain sa sb where
    ok: "base mod PAGE_SIZE = 0" "len mod 4096 = 0" "len \<le> 0xfff * 4096"
    and c: "create_loop ums base 0 ?n s = Inr (0, sa)"
    and ms: "memset_loop base 0 ?n sa = Inr sb"
    and isb: "unat (next_memregion_idx sb) < PAGE_TABLE_ENTRIES"
    and s1raw: "s1 = sb\<lparr>memregions := (memregions sb)(unat (next_memregion_idx sb) :=
                       base OR of_nat (nat (len div 4096))),
                 next_memregion_idx :=
                   (if next_region ((memregions sb)(unat (next_memregion_idx sb) :=
                          base OR of_nat (nat (len div 4096)))) (unat (next_memregion_idx sb))
                        ((unat (next_memregion_idx sb) + 1) mod PAGE_TABLE_ENTRIES)
                       = unat (next_memregion_idx sb)
                    then - 1
                    else of_nat (next_region ((memregions sb)(unat (next_memregion_idx sb) :=
                          base OR of_nat (nat (len div 4096)))) (unat (next_memregion_idx sb))
                        ((unat (next_memregion_idx sb) + 1) mod PAGE_TABLE_ENTRIES)))\<rparr>"
    by (elim exE conjE) (rule that; assumption)
  have n: "0 < ?n" "?n \<le> 0xfff" using len ok(2,3) by auto
  have b: "0 + ?n \<le> 2 ^ 20" using n(2) by simp
  from create_loop_pages [OF al nz fit h cl b c] obtain ids where
    ids: "length ids = ?n"
      "\<forall>j < ?n. page_on ums sa (base + of_nat (0 + j) * PAGE_SIZE) (ids ! j)
                \<and> ids ! j < length (frames s)"
      "length (frames sa) = length (frames s)"
      "\<forall>x < length (frames s). unat (frames sa ! x) = unat (frames s ! x) + count_list ids x"
      "memregions sa = memregions s" "next_memregion_idx sa = next_memregion_idx s"
    by (elim exE conjE) (rule that; assumption)
  note sb = memset_loop_fields [OF ms]
  let ?m = "(memregions s)(?i := base OR of_nat ?n)"
  let ?nx = "next_region ?m ?i ((?i + 1) mod PAGE_TABLE_ENTRIES)"
  let ?c = "(if ?nx = ?i then - 1 else of_nat ?nx) :: u32"
  have s1: "s1 = sb\<lparr>memregions := ?m, next_memregion_idx := ?c\<rparr>"
    using s1raw by (simp only: sb ids(5,6))
  have f1: "pd s1 = pd sa" "pt s1 = pt sa" "frames s1 = frames sa" "memregions s1 = ?m"
    "next_memregion_idx s1 = ?c" "next_available_frame s1 = next_available_frame sa"
    by (simp_all add: s1 sb)
  from create_loop_inv [OF al nz fit h cl c] have inva: "hint_in_range sa" "pt_clean sa"
    by simp_all
  have inv1: "hint_in_range s1" "pt_clean s1"
    using inva inv_fields(1) [OF f1(1,2)] inv_fields(2) [OF f1(3,6)] by simp_all
  note re = region_entry [OF ok(1) n(2)]
  have fr: "find_region (memregions s1) base 0 PAGE_TABLE_ENTRIES
      = Some (?i, memregions s1 ?i AND 0xfff)"
  proof (rule find_region_first)
    show "0 \<le> ?i" by simp
    show "?i < 0 + PAGE_TABLE_ENTRIES" using idx by simp
    show "memregions s1 ?i AND 0xfffff000 = base" by (simp add: f1 re)
    show "\<forall>j. 0 \<le> j \<and> j < ?i \<longrightarrow> memregions s1 j AND 0xfffff000 \<noteq> base"
      using first by (simp add: f1)
  qed
  have num: "memregions s1 ?i AND 0xfff = of_nat ?n" by (simp add: f1 re)
  have numnz: "(of_nat ?n :: u32) \<noteq> 0"
  proof
    assume "(of_nat ?n :: u32) = 0"
    then have "unat (of_nat ?n :: u32) = 0" by simp
    with re(3) n(1) show False by simp
  qed
  have pages: "\<forall>m < ?n. page_on ums s1 (base + of_nat (0 + m) * PAGE_SIZE) (ids ! m)
                \<and> ids ! m < length (frames s1)"
    using ids(2) by (simp add: page_on_fields [OF f1(1,2)] f1(3) ids(3))
  have counts: "\<forall>x < length (frames s1). count_list ids x \<le> unat (frames s1 ! x)"
    using ids(4) by (simp add: f1(3) ids(3))
  from destroy_loop_pages [OF ok(1) ids(1) pages counts b] obtain sc where
    sc: "destroy_loop ums base 0 ?n s1 = Inr sc"
        "length (frames sc) = length (frames s1)"
        "\<forall>x < length (frames s1). unat (frames sc ! x) + count_list ids x = unat (frames s1 ! x)"
        "memregions sc = memregions s1" "next_memregion_idx sc = next_memregion_idx s1"
    by (elim exE conjE) (rule that; assumption)
  let ?s2 = "sc\<lparr>memregions := (memregions sc)(?i := 0),
                next_memregion_idx := (if next_memregion_idx sc = - 1 then of_nat ?i
                                       else next_memregion_idx sc)\<rparr>"
  have rem: "u_remove_pages ums base s1 = Inr (0, ?s2)"
    using ok(1) numnz sc(1) by (simp add: u_remove_pages_def fr num re(3))
  have mem: "memregions ?s2 = memregions s"
    using free fun_upd_triv [of "memregions s" ?i] by (simp add: sc(4) f1(4))
  have frames: "frames ?s2 = frames s"
  proof -
    have "frames sc = frames s"
    proof (rule nth_equalityI)
      show "length (frames sc) = length (frames s)" by (simp add: sc(2) f1(3) ids(3))
    next
      fix x
      assume "x < length (frames sc)"
      then have x: "x < length (frames s)" by (simp add: sc(2) f1(3) ids(3))
      from sc(3) [rule_format, of x] ids(4) [rule_format, OF x] x
      have "unat (frames sc ! x) = unat (frames s ! x)" by (simp add: f1(3) ids(3))
      then show "frames sc ! x = frames s ! x" by (simp only: word_unat_eq_iff)
    qed
    then show ?thesis by simp
  qed
  have nlt: "?nx < PAGE_TABLE_ENTRIES"
    by (rule next_region_lt) (simp add: PAGE_TABLE_ENTRIES_def)
  have orig: "(of_nat ?i :: u32) = next_memregion_idx s" by simp
  have "?c \<noteq> of_nat ?i" using idx nlt by (rule cursor_moves)
  then have moved: "next_memregion_idx s1 \<noteq> next_memregion_idx s"
    unfolding f1(5) orig .
  have cur: "next_memregion_idx ?s2 =
               (if next_memregion_idx s1 = - 1 then next_memregion_idx s
                else next_memregion_idx s1)"
    using orig by (simp add: sc(5))
  from destroy_loop_inv [OF sc(1) inv1] have invc: "hint_in_range sc" "pt_clean sc"
    by simp_all
  have inv2: "hint_in_range ?s2" "pt_clean ?s2"
    using invc by (simp_all add: hint_in_range_def pt_clean_def)
  have slot: "unat (next_memregion_idx ?s2) < PAGE_TABLE_ENTRIES
      \<and> memregions ?s2 (unat (next_memregion_idx ?s2)) = 0"
  proof (cases "?nx = ?i")
    case True
    then have "next_memregion_idx s1 = - 1" by (simp add: f1(5))
    then have "next_memregion_idx ?s2 = next_memregion_idx s" using cur by simp
    with idx free mem show ?thesis by simp
  next
    case False
    then have c1: "next_memregion_idx s1 = of_nat ?nx" by (simp add: f1(5))
    have un: "unat (of_nat ?nx :: u32) = ?nx"
      using nlt by (simp add: unat_of_nat PAGE_TABLE_ENTRIES_def)
    have "(of_nat ?nx :: u32) \<noteq> - 1" using cursor_valid [of "of_nat ?nx"] nlt un by simp
    then have c2: "next_memregion_idx ?s2 = of_nat ?nx" using cur c1 by simp
    from next_region_free [OF idx, of ?m "(?i + 1) mod PAGE_TABLE_ENTRIES"] False
    have "?m ?nx = 0" by simp
    with False have "memregions s ?nx = 0" by simp
    with nlt un mem show ?thesis by (simp only: c2)
  qed
  from rem mem frames moved cur inv2 slot show ?thesis by (intro exI [of _ ?s2]) simp
qed

theorem new_pages_remove_pages_witness:
  "u_new_pages 0x1000000 True 0x1002000 4096 vm_paging = Inr (0, vm_paged)
   \<and> next_memregion_idx vm_paged = 3
   \<and> (\<exists>s2. u_remove_pages 0x1000000 0x1002000 vm_paged = Inr (0, s2)
          \<and> memregions s2 = memregions vm_paging \<and> frames s2 = frames vm_paging
          \<and> next_memregion_idx s2 = 3
          \<and> hint_in_range s2 \<and> pt_clean s2
          \<and> memregions s2 3 = 0)"
proof -
  have nz: "(0x1000000 :: u32) \<noteq> 0" and len: "(0::int) < 4096" by simp_all
  from new_pages_remove_pages [OF vm_paging_inv(1) nz vm_paging_inv(2-7) len
      new_pages_vm_paging]
  obtain s2 where s2: "u_remove_pages 0x1000000 0x1002000 vm_paged = Inr (0, s2)"
      "memregions s2 = memregions vm_paging" "frames s2 = frames vm_paging"
      "next_memregion_idx s2 =
               (if next_memregion_idx vm_paged = - 1 then next_memregion_idx vm_paging
                else next_memregion_idx vm_paged)"
      "hint_in_range s2" "pt_clean s2"
      "memregions s2 (unat (next_memregion_idx s2)) = 0"
    by (elim exE conjE) (rule that; assumption)
  have c: "next_memregion_idx vm_paged = 3" by (simp add: vm_paged_def)
  then have c2: "next_memregion_idx s2 = 3" using s2(4) by simp
  have "memregions s2 3 = 0" using s2(7) by (simp add: c2)
  with s2 c c2 new_pages_vm_paging show ?thesis by (intro conjI exI [of _ s2]) simp_all
qed

text \<open>
  C6 as stated fails in three ways, each a run from \<open>vm_paging\<close>, whose cursor is at
  slot 2. After \<open>new_pages(0x1002000, 4096)\<close> and \<open>remove_pages(0x1002000)\<close>, both
  returning 0, the state is \<open>vm_paging\<close> but for the zeroed page and the cursor, now at
  slot 3. With the valid length 0, \<open>remove_pages\<close> returns \<open>-2\<close> and the entry stays
  in slot 2. And after a zero-length region at the same base, a successful
  \<open>new_pages(0x1002000, 4096)\<close> is followed by a \<open>remove_pages\<close> that returns \<open>-2\<close>
  and removes nothing, since the search stops at the zero-length entry.
\<close>

theorem new_pages_remove_pages_not_identity:
  "next_memregion_idx vm_paging = 2
   \<and> paging_run 0x1000000 [NewPages True 0x1002000 4096, RemovePages 0x1002000] vm_paging
       = Inr ([0, 0], vm_paging\<lparr>phys := (phys vm_paging)(0x1001000 := zero_page),
                                next_memregion_idx := 3\<rparr>)
   \<and> paging_run 0x1000000 [NewPages True 0x1002000 0, RemovePages 0x1002000] vm_paging
       = Inr ([0, - 2], vm_paging\<lparr>memregions := (memregions vm_paging)(2 := 0x1002000),
                                  next_memregion_idx := 3\<rparr>)
   \<and> map_sum id fst (paging_run 0x1000000
         [NewPages True 0x1002000 0, NewPages True 0x1002000 4096, RemovePages 0x1002000]
         vm_paging) = Inr [0, 0, - 2]"
  using run_new_remove run_zero_remove run_zero_new_remove
  by (simp only: vm_paging_fields(1) simp_thms)

section \<open>A region of length 0\<close>

text \<open>
  C10, with the conditions it needs. Let \<open>base\<close> be page-aligned and not 0, let the
  argument block be readable, let the cursor of the region table be a slot of the table
  (so the table is not worn out), and let no slot record a region at \<open>base\<close> with a
  page count other than 0. Then \<open>new_pages(base, 0)\<close> returns 0; it changes nothing
  but the region table, where it stores \<open>base | 0 = base\<close> in the slot of the cursor,
  which is then not empty, and moves the cursor away from that slot;
  \<open>remove_pages(base)\<close> then returns \<open>-2\<close> and changes nothing; and after every later
  sequence of \<open>new_pages\<close> and \<open>remove_pages\<close> calls that returns, the slot still holds
  \<open>base\<close> and the cursor is not on it: the slot is lost for good.
\<close>

theorem new_pages_zero_length:
  assumes al: "base mod PAGE_SIZE = 0" and nz: "base \<noteq> 0"
    and idx: "unat (next_memregion_idx s) < PAGE_TABLE_ENTRIES"
    and nolive: "\<forall>j < PAGE_TABLE_ENTRIES. memregions s j AND 0xfffff000 = base
                   \<longrightarrow> memregions s j AND 0xfff = 0"
  shows "\<exists>s'. u_new_pages ums True base 0 s = Inr (0, s')
      \<and> s' = s\<lparr>memregions := (memregions s)(unat (next_memregion_idx s) := base),
               next_memregion_idx := next_memregion_idx s'\<rparr>
      \<and> next_memregion_idx s' \<noteq> next_memregion_idx s
      \<and> memregions s' (unat (next_memregion_idx s)) \<noteq> 0
      \<and> u_remove_pages ums base s' = Inr (- 2, s')
      \<and> (\<forall>cs rs s''. paging_run ums cs s' = Inr (rs, s'')
            \<longrightarrow> memregions s'' (unat (next_memregion_idx s)) = base
              \<and> next_memregion_idx s'' \<noteq> next_memregion_idx s)"
proof -
  let ?i = "unat (next_memregion_idx s)"
  let ?m = "(memregions s)(?i := base)"
  let ?n = "next_region ?m ?i ((?i + 1) mod PAGE_TABLE_ENTRIES)"
  let ?c = "(if ?n = ?i then - 1 else of_nat ?n) :: u32"
  let ?s' = "s\<lparr>memregions := ?m, next_memregion_idx := ?c\<rparr>"
  have c: "next_memregion_idx s \<noteq> - 1" using idx by (rule cursor_valid)
  have new: "u_new_pages ums True base 0 s = Inr (0, ?s')"
    using al c idx by (simp add: u_new_pages_def Let_def)
  have nlt: "?n < PAGE_TABLE_ENTRIES"
    by (rule next_region_lt) (simp add: PAGE_TABLE_ENTRIES_def)
  have orig: "(of_nat ?i :: u32) = next_memregion_idx s" by simp
  have cm: "?c \<noteq> of_nat ?i" using idx nlt by (rule cursor_moves)
  then have moved: "next_memregion_idx ?s' \<noteq> next_memregion_idx s" by simp
  have low: "base AND 0xfff = 0" using al by (rule aligned_low_bits)
  have high: "base AND 0xfffff000 = base" using al by (rule aligned_high_bits)
  have "\<exists>r'. find_region ?m base 0 PAGE_TABLE_ENTRIES = Some (r', ?m r' AND 0xfff)"
    using idx high by (intro find_region_found [of 0 ?i]) simp_all
  then obtain r' where f: "find_region ?m base 0 PAGE_TABLE_ENTRIES = Some (r', ?m r' AND 0xfff)"
    by (elim exE)
  from find_region_Some [OF f] have r': "r' < PAGE_TABLE_ENTRIES" "?m r' AND 0xfffff000 = base"
    by simp_all
  have zero: "?m r' AND 0xfff = 0"
  proof (cases "r' = ?i")
    case True
    then show ?thesis using low by simp
  next
    case False
    with r' nolive show ?thesis by simp
  qed
  have rem: "u_remove_pages ums base ?s' = Inr (- 2, ?s')"
    using al f zero by (simp add: u_remove_pages_def)
  have occupied: "memregions ?s' ?i \<noteq> 0" using nz by simp
  have keep: "\<forall>cs rs s''. paging_run ums cs ?s' = Inr (rs, s'')
            \<longrightarrow> memregions s'' ?i = base \<and> next_memregion_idx s'' \<noteq> next_memregion_idx s"
  proof (intro allI impI)
    fix cs rs s''
    assume run: "paging_run ums cs ?s' = Inr (rs, s'')"
    have a: "memregions ?s' ?i \<noteq> 0" "memregions ?s' ?i AND 0xfff = 0"
      "next_memregion_idx ?s' \<noteq> of_nat ?i"
      using nz low cm by simp_all
    from paging_run_keeps_slot [OF idx run a]
    show "memregions s'' ?i = base \<and> next_memregion_idx s'' \<noteq> next_memregion_idx s"
      by simp
  qed
  have shape: "?s' = s\<lparr>memregions := ?m, next_memregion_idx := next_memregion_idx ?s'\<rparr>"
    by simp
  from new shape moved occupied rem keep show ?thesis by (intro exI [of _ ?s']) simp
qed

theorem new_pages_zero_length_witness:
  "\<exists>s'. u_new_pages 0x1000000 True 0x1002000 0 vm_paging = Inr (0, s')
      \<and> memregions s' 2 = 0x1002000
      \<and> next_memregion_idx s' \<noteq> 2
      \<and> u_remove_pages 0x1000000 0x1002000 s' = Inr (- 2, s')
      \<and> paging_run 0x1000000 [RemovePages 0x1002000, RemovePages 0x1002000] s'
           = Inr ([- 2, - 2], s')"
proof -
  have h: "(0x1002000 :: u32) \<noteq> 0"
    "unat (next_memregion_idx vm_paging) < PAGE_TABLE_ENTRIES"
    "\<forall>j < PAGE_TABLE_ENTRIES. memregions vm_paging j AND 0xfffff000 = 0x1002000
                   \<longrightarrow> memregions vm_paging j AND 0xfff = 0"
    by (simp_all add: vm_paging_fields PAGE_TABLE_ENTRIES_def)
  from new_pages_zero_length [OF paging_example_numbers(3) h, of "0x1000000"]
  obtain s' where s': "u_new_pages 0x1000000 True 0x1002000 0 vm_paging = Inr (0, s')"
      "next_memregion_idx s' \<noteq> next_memregion_idx vm_paging"
      "u_remove_pages 0x1000000 0x1002000 s' = Inr (- 2, s')"
      "\<forall>cs rs s''. paging_run 0x1000000 cs s' = Inr (rs, s'')
            \<longrightarrow> memregions s'' (unat (next_memregion_idx vm_paging)) = 0x1002000
              \<and> next_memregion_idx s'' \<noteq> next_memregion_idx vm_paging"
    by (elim exE conjE) (rule that; assumption)
  have run: "paging_run 0x1000000 [RemovePages 0x1002000, RemovePages 0x1002000] s'
           = Inr ([- 2, - 2], s')"
    by (simp add: s'(3))
  from s'(4) [rule_format, OF run] have "memregions s' 2 = 0x1002000"
    by (simp add: vm_paging_fields)
  with s'(1,2,3) run show ?thesis by (intro exI [of _ s']) (simp add: vm_paging_fields)
qed

text \<open>
  C10 as stated fails in three ways. With a worn-out table (cursor \<open>-1\<close>)
  \<open>new_pages(0x1002000, 0)\<close> returns \<open>ERR_WORN_OUT_NEW_PAGES\<close>. After
  \<open>new_pages(0x1002000, 4096)\<close>, a \<open>new_pages(0x1002000, 0)\<close> returns 0 and the
  following \<open>remove_pages(0x1002000)\<close> finds the first region, removes it and returns
  0, not the not-found error. And \<open>new_pages(0, 0)\<close> returns 0 and moves the cursor,
  but the entry it stores is \<open>0 | 0\<close>, the mark of an empty slot: the table is as
  before and no slot is taken.
\<close>

theorem new_pages_zero_length_exceptions:
  "u_new_pages 0x1000000 True 0x1002000 0 (vm_paging\<lparr>next_memregion_idx := - 1\<rparr>)
     = Inr (ERR_WORN_OUT_NEW_PAGES, vm_paging\<lparr>next_memregion_idx := - 1\<rparr>)
   \<and> map_sum id fst (paging_run 0x1000000
         [NewPages True 0x1002000 4096, NewPages True 0x1002000 0, RemovePages 0x1002000]
         vm_paging) = Inr [0, 0, 0]
   \<and> paging_run 0x1000000 [NewPages True 0 0] vm_paging
       = Inr ([0], vm_paging\<lparr>next_memregion_idx := 3\<rparr>)"
  using new_pages_worn_out run_new_zero_remove run_zero_base
  by (simp only: simp_thms)

section \<open>A mutex handed to a thread that does not wait\<close>

lemma k_mx_fields:
  "operational (k_mx rq nxt acq m)"
  "queues (k_mx rq nxt acq m) RunningList = rq"
  "mutexes (k_mx rq nxt acq m) 7 = m"
  "mutex_nextwait (threads (k_mx rq nxt acq m) t) = nxt t"
  "acquired_lock (threads (k_mx rq nxt acq m) t) = acq t"
  "t = 32 \<or> t = 33 \<or> t = 36 \<Longrightarrow> t_state (threads (k_mx rq nxt acq m) t) = THR_RUNNING"
  "t = 32 \<or> t = 33 \<or> t = 36 \<Longrightarrow> t_list (threads (k_mx rq nxt acq m) t) = Some RunningList"
  "get_running (k_mx (me # rq) nxt acq m) = Some me"
  "get_self (k_mx (me # rq) nxt acq m) = Inr me"
  by (auto simp add: k_mx_def k_example_def thread_example_def get_running_def get_self_def)

lemma k_mx_upd:
  "upd_mutex 7 f (k_mx rq nxt acq m) = k_mx rq nxt acq (f m)"
  "upd_thread t (\<lambda>c. c\<lparr>acquired_lock := a\<rparr>) (k_mx rq nxt acq m) = k_mx rq nxt (acq(t := a)) m"
  "upd_thread t (\<lambda>c. c\<lparr>mutex_nextwait := n\<rparr>) (k_mx rq nxt acq m) = k_mx rq (nxt(t := n)) acq m"
  by (auto simp add: k_mx_def upd_mutex_def upd_thread_def fun_eq_iff)

lemma set_running_k_mx:
  assumes "t = 32 \<or> t = 33 \<or> t = 36"
  shows "set_running (Some t) (k_mx rq nxt acq m) = (0, k_mx (t # remove1 t rq) nxt acq m)"
  using assms
  by (auto simp add: set_running_def unset_state_def thrlist_remove_def thrlist_add_head_def
      k_mx_def k_example_def thread_example_def upd_thread_def upd_list_def fun_eq_iff
      split: thrlist_id.splits)


lemma lock_free_k_mx:
  assumes "\<not> mutex_lock m" "owner m = None" "acq me \<noteq> Some 7"
  shows "mutex_lock_fn 7 (k_mx (me # rq) nxt acq m)
     = Inr (LockReturned, k_mx (me # rq) nxt (acq(me := Some 7))
              (m\<lparr>owner := Some me, previous_lock := acq me, mutex_lock := False,
                  list_owner := None\<rparr>))"
  using assms
  by (simp add: mutex_lock_fn_def mutex_lock_tail_def Let_def k_mx_fields k_mx_upd)

lemma lock_wait_k_mx:
  assumes "\<not> mutex_lock m" "owner m = Some ow" "ow \<noteq> me"
  shows "mutex_lock_fn 7 (k_mx (me # rq) nxt acq m)
     = Inr (LockYieldOwner ow,
            (case last_waiting m of
               None \<Rightarrow> k_mx (me # rq) nxt acq
                  (m\<lparr>first_waiting := Some me, last_waiting := Some me, mutex_lock := False,
                      list_owner := None\<rparr>)
             | Some l \<Rightarrow> k_mx (me # rq) (nxt(l := Some me)) acq
                  (m\<lparr>last_waiting := Some me, mutex_lock := False, list_owner := None\<rparr>)))"
  using assms
  by (simp add: mutex_lock_fn_def mutex_lock_wait_def waitlist_addLast_def Let_def k_mx_fields
      k_mx_upd split: option.splits)

lemma lock_resumed_k_mx:
  assumes "\<not> mutex_lock m" "owner m = Some me" "acq me \<noteq> Some 7"
  shows "mutex_lock_fn_resumed me 7 (k_mx rq nxt acq m)
     = Inr (LockReturned, k_mx rq nxt (acq(me := Some 7))
              (m\<lparr>previous_lock := acq me, mutex_lock := False, list_owner := None\<rparr>))"
  using assms
  by (simp add: mutex_lock_fn_resumed_def mutex_lock_wait_def mutex_lock_tail_def Let_def
      k_mx_fields k_mx_upd)

lemma unlock_k_mx:
  assumes "\<not> mutex_lock m" "acq me = Some 7" "owner m \<noteq> None" "first_waiting m = Some t"
    and "t = 32 \<or> t = 33 \<or> t = 36"
  shows "mutex_unlock 7 (k_mx (me # rq) nxt acq m)
     = Some (Inr (YieldTo t, k_mx (me # rq) nxt (acq(me := previous_lock m))
          (m\<lparr>previous_lock := None, first_waiting := nxt t,
              last_waiting := (if last_waiting m = Some t then None else last_waiting m),
              owner := Some t, mutex_lock := False, list_owner := None\<rparr>)))"
  unfolding mutex_unlock_def Let_def
  apply (subst release_loop.simps)
  using assms
  apply (simp add: waitlist_removeHead_def Let_def k_mx_fields k_mx_upd)
  done

lemma unlock_empty_k_mx:
  assumes "\<not> mutex_lock m" "acq me = Some 7" "owner m \<noteq> None" "first_waiting m = None"
  shows "mutex_unlock 7 (k_mx (me # rq) nxt acq m)
     = Some (Inr (Unlocked, k_mx (me # rq) nxt (acq(me := previous_lock m))
          (m\<lparr>previous_lock := None, owner := None, mutex_lock := False, list_owner := None\<rparr>)))"
  unfolding mutex_unlock_def Let_def
  apply (subst release_loop.simps)
  using assms
  apply (auto simp add: waitlist_removeHead_def Let_def k_mx_fields k_mx_upd)
  done

text \<open>
  Such a state is reached from a fresh mutex. Thread 32 takes mutex 7; threads 33 and
  36 ask for it and queue, which sets the \<open>mutex_nextwait\<close> of 33 to 36; 32 releases
  to 33 and 33 to 36. Then 33 asks again and queues alone, behind the holder 36; 36
  releases to 33, and \<open>waitlist_removeHead\<close> leaves the old \<open>mutex_nextwait\<close> of 33
  in \<open>first_waiting\<close>. Each line is one stretch of a call by the running thread, or
  \<open>set_running\<close> for the thread that runs next.
\<close>

lemma mutex_replay:
  "mutex_lock_fn 7 (mutex_init 7 k_mx_fresh)
     = Inr (LockReturned, (k_mx [32, 33, 36] (\<lambda>t. None) ((\<lambda>t. None)(32 := Some 7)) \<lparr>mutex_lock = False, owner = Some 32, list_owner = None, first_waiting = None, last_waiting = None, previous_lock = None\<rparr>))"
  "set_running (Some 33) (k_mx [32, 33, 36] (\<lambda>t. None) ((\<lambda>t. None)(32 := Some 7)) \<lparr>mutex_lock = False, owner = Some 32, list_owner = None, first_waiting = None, last_waiting = None, previous_lock = None\<rparr>)
     = (0, (k_mx [33, 32, 36] (\<lambda>t. None) ((\<lambda>t. None)(32 := Some 7)) \<lparr>mutex_lock = False, owner = Some 32, list_owner = None, first_waiting = None, last_waiting = None, previous_lock = None\<rparr>))"
  "mutex_lock_fn 7 (k_mx [33, 32, 36] (\<lambda>t. None) ((\<lambda>t. None)(32 := Some 7)) \<lparr>mutex_lock = False, owner = Some 32, list_owner = None, first_waiting = None, last_waiting = None, previous_lock = None\<rparr>)
     = Inr (LockYieldOwner 32, (k_mx [33, 32, 36] (\<lambda>t. None) ((\<lambda>t. None)(32 := Some 7)) \<lparr>mutex_lock = False, owner = Some 32, list_owner = None, first_waiting = Some 33, last_waiting = Some 33, previous_lock = None\<rparr>))"
  "set_running (Some 36) (k_mx [33, 32, 36] (\<lambda>t. None) ((\<lambda>t. None)(32 := Some 7)) \<lparr>mutex_lock = False, owner = Some 32, list_owner = None, first_waiting = Some 33, last_waiting = Some 33, previous_lock = None\<rparr>)
     = (0, (k_mx [36, 33, 32] (\<lambda>t. None) ((\<lambda>t. None)(32 := Some 7)) \<lparr>mutex_lock = False, owner = Some 32, list_owner = None, first_waiting = Some 33, last_waiting = Some 33, previous_lock = None\<rparr>))"
  "mutex_lock_fn 7 (k_mx [36, 33, 32] (\<lambda>t. None) ((\<lambda>t. None)(32 := Some 7)) \<lparr>mutex_lock = False, owner = Some 32, list_owner = None, first_waiting = Some 33, last_waiting = Some 33, previous_lock = None\<rparr>)
     = Inr (LockYieldOwner 32, (k_mx [36, 33, 32] ((\<lambda>t. None)(33 := Some 36)) ((\<lambda>t. None)(32 := Some 7)) \<lparr>mutex_lock = False, owner = Some 32, list_owner = None, first_waiting = Some 33, last_waiting = Some 36, previous_lock = None\<rparr>))"
  "set_running (Some 32) (k_mx [36, 33, 32] ((\<lambda>t. None)(33 := Some 36)) ((\<lambda>t. None)(32 := Some 7)) \<lparr>mutex_lock = False, owner = Some 32, list_owner = None, first_waiting = Some 33, last_waiting = Some 36, previous_lock = None\<rparr>)
     = (0, (k_mx [32, 36, 33] ((\<lambda>t. None)(33 := Some 36)) ((\<lambda>t. None)(32 := Some 7)) \<lparr>mutex_lock = False, owner = Some 32, list_owner = None, first_waiting = Some 33, last_waiting = Some 36, previous_lock = None\<rparr>))"
  "mutex_unlock 7 (k_mx [32, 36, 33] ((\<lambda>t. None)(33 := Some 36)) ((\<lambda>t. None)(32 := Some 7)) \<lparr>mutex_lock = False, owner = Some 32, list_owner = None, first_waiting = Some 33, last_waiting = Some 36, previous_lock = None\<rparr>)
     = Some (Inr (YieldTo 33, (k_mx [32, 36, 33] ((\<lambda>t. None)(33 := Some 36)) (\<lambda>t. None) \<lparr>mutex_lock = False, owner = Some 33, list_owner = None, first_waiting = Some 36, last_waiting = Some 36, previous_lock = None\<rparr>)))"
  "set_running (Some 33) (k_mx [32, 36, 33] ((\<lambda>t. None)(33 := Some 36)) (\<lambda>t. None) \<lparr>mutex_lock = False, owner = Some 33, list_owner = None, first_waiting = Some 36, last_waiting = Some 36, previous_lock = None\<rparr>)
     = (0, (k_mx [33, 32, 36] ((\<lambda>t. None)(33 := Some 36)) (\<lambda>t. None) \<lparr>mutex_lock = False, owner = Some 33, list_owner = None, first_waiting = Some 36, last_waiting = Some 36, previous_lock = None\<rparr>))"
  "mutex_lock_fn_resumed 33 7 (k_mx [33, 32, 36] ((\<lambda>t. None)(33 := Some 36)) (\<lambda>t. None) \<lparr>mutex_lock = False, owner = Some 33, list_owner = None, first_waiting = Some 36, last_waiting = Some 36, previous_lock = None\<rparr>)
     = Inr (LockReturned, (k_mx [33, 32, 36] ((\<lambda>t. None)(33 := Some 36)) ((\<lambda>t. None)(33 := Some 7)) \<lparr>mutex_lock = False, owner = Some 33, list_owner = None, first_waiting = Some 36, last_waiting = Some 36, previous_lock = None\<rparr>))"
  "mutex_unlock 7 (k_mx [33, 32, 36] ((\<lambda>t. None)(33 := Some 36)) ((\<lambda>t. None)(33 := Some 7)) \<lparr>mutex_lock = False, owner = Some 33, list_owner = None, first_waiting = Some 36, last_waiting = Some 36, previous_lock = None\<rparr>)
     = Some (Inr (YieldTo 36, (k_mx [33, 32, 36] ((\<lambda>t. None)(33 := Some 36)) (\<lambda>t. None) \<lparr>mutex_lock = False, owner = Some 36, list_owner = None, first_waiting = None, last_waiting = None, previous_lock = None\<rparr>)))"
  "set_running (Some 36) (k_mx [33, 32, 36] ((\<lambda>t. None)(33 := Some 36)) (\<lambda>t. None) \<lparr>mutex_lock = False, owner = Some 36, list_owner = None, first_waiting = None, last_waiting = None, previous_lock = None\<rparr>)
     = (0, (k_mx [36, 33, 32] ((\<lambda>t. None)(33 := Some 36)) (\<lambda>t. None) \<lparr>mutex_lock = False, owner = Some 36, list_owner = None, first_waiting = None, last_waiting = None, previous_lock = None\<rparr>))"
  "mutex_lock_fn_resumed 36 7 (k_mx [36, 33, 32] ((\<lambda>t. None)(33 := Some 36)) (\<lambda>t. None) \<lparr>mutex_lock = False, owner = Some 36, list_owner = None, first_waiting = None, last_waiting = None, previous_lock = None\<rparr>)
     = Inr (LockReturned, (k_mx [36, 33, 32] ((\<lambda>t. None)(33 := Some 36)) ((\<lambda>t. None)(36 := Some 7)) \<lparr>mutex_lock = False, owner = Some 36, list_owner = None, first_waiting = None, last_waiting = None, previous_lock = None\<rparr>))"
  "set_running (Some 33) (k_mx [36, 33, 32] ((\<lambda>t. None)(33 := Some 36)) ((\<lambda>t. None)(36 := Some 7)) \<lparr>mutex_lock = False, owner = Some 36, list_owner = None, first_waiting = None, last_waiting = None, previous_lock = None\<rparr>)
     = (0, (k_mx [33, 36, 32] ((\<lambda>t. None)(33 := Some 36)) ((\<lambda>t. None)(36 := Some 7)) \<lparr>mutex_lock = False, owner = Some 36, list_owner = None, first_waiting = None, last_waiting = None, previous_lock = None\<rparr>))"
  "mutex_lock_fn 7 (k_mx [33, 36, 32] ((\<lambda>t. None)(33 := Some 36)) ((\<lambda>t. None)(36 := Some 7)) \<lparr>mutex_lock = False, owner = Some 36, list_owner = None, first_waiting = None, last_waiting = None, previous_lock = None\<rparr>)
     = Inr (LockYieldOwner 36, (k_mx [33, 36, 32] ((\<lambda>t. None)(33 := Some 36)) ((\<lambda>t. None)(36 := Some 7)) \<lparr>mutex_lock = False, owner = Some 36, list_owner = None, first_waiting = Some 33, last_waiting = Some 33, previous_lock = None\<rparr>))"
  "set_running (Some 36) (k_mx [33, 36, 32] ((\<lambda>t. None)(33 := Some 36)) ((\<lambda>t. None)(36 := Some 7)) \<lparr>mutex_lock = False, owner = Some 36, list_owner = None, first_waiting = Some 33, last_waiting = Some 33, previous_lock = None\<rparr>)
     = (0, (k_mx [36, 33, 32] ((\<lambda>t. None)(33 := Some 36)) ((\<lambda>t. None)(36 := Some 7)) \<lparr>mutex_lock = False, owner = Some 36, list_owner = None, first_waiting = Some 33, last_waiting = Some 33, previous_lock = None\<rparr>))"
  "mutex_unlock 7 (k_mx [36, 33, 32] ((\<lambda>t. None)(33 := Some 36)) ((\<lambda>t. None)(36 := Some 7)) \<lparr>mutex_lock = False, owner = Some 36, list_owner = None, first_waiting = Some 33, last_waiting = Some 33, previous_lock = None\<rparr>)
     = Some (Inr (YieldTo 33, (k_mx [36, 33, 32] ((\<lambda>t. None)(33 := Some 36)) (\<lambda>t. None) \<lparr>mutex_lock = False, owner = Some 33, list_owner = None, first_waiting = Some 36, last_waiting = None, previous_lock = None\<rparr>)))"
  "set_running (Some 33) (k_mx [36, 33, 32] ((\<lambda>t. None)(33 := Some 36)) (\<lambda>t. None) \<lparr>mutex_lock = False, owner = Some 33, list_owner = None, first_waiting = Some 36, last_waiting = None, previous_lock = None\<rparr>)
     = (0, (k_mx [33, 36, 32] ((\<lambda>t. None)(33 := Some 36)) (\<lambda>t. None) \<lparr>mutex_lock = False, owner = Some 33, list_owner = None, first_waiting = Some 36, last_waiting = None, previous_lock = None\<rparr>))"
  "mutex_lock_fn_resumed 33 7 (k_mx [33, 36, 32] ((\<lambda>t. None)(33 := Some 36)) (\<lambda>t. None) \<lparr>mutex_lock = False, owner = Some 33, list_owner = None, first_waiting = Some 36, last_waiting = None, previous_lock = None\<rparr>)
     = Inr (LockReturned, (k_mx [33, 36, 32] ((\<lambda>t. None)(33 := Some 36)) ((\<lambda>t. None)(33 := Some 7)) \<lparr>mutex_lock = False, owner = Some 33, list_owner = None, first_waiting = Some 36, last_waiting = None, previous_lock = None\<rparr>))"
proof -
  show "mutex_lock_fn 7 (mutex_init 7 k_mx_fresh)
     = Inr (LockReturned, (k_mx [32, 33, 36] (\<lambda>t. None) ((\<lambda>t. None)(32 := Some 7)) \<lparr>mutex_lock = False, owner = Some 32, list_owner = None, first_waiting = None, last_waiting = None, previous_lock = None\<rparr>))"
    by (simp add: mutex_init_def k_mx_fresh_def k_mx_upd mutex_example_def lock_free_k_mx)
  show "set_running (Some 33) (k_mx [32, 33, 36] (\<lambda>t. None) ((\<lambda>t. None)(32 := Some 7)) \<lparr>mutex_lock = False, owner = Some 32, list_owner = None, first_waiting = None, last_waiting = None, previous_lock = None\<rparr>)
     = (0, (k_mx [33, 32, 36] (\<lambda>t. None) ((\<lambda>t. None)(32 := Some 7)) \<lparr>mutex_lock = False, owner = Some 32, list_owner = None, first_waiting = None, last_waiting = None, previous_lock = None\<rparr>))"
    by (simp add: set_running_k_mx)
  show "mutex_lock_fn 7 (k_mx [33, 32, 36] (\<lambda>t. None) ((\<lambda>t. None)(32 := Some 7)) \<lparr>mutex_lock = False, owner = Some 32, list_owner = None, first_waiting = None, last_waiting = None, previous_lock = None\<rparr>)
     = Inr (LockYieldOwner 32, (k_mx [33, 32, 36] (\<lambda>t. None) ((\<lambda>t. None)(32 := Some 7)) \<lparr>mutex_lock = False, owner = Some 32, list_owner = None, first_waiting = Some 33, last_waiting = Some 33, previous_lock = None\<rparr>))"
    by (simp add: lock_wait_k_mx)
  show "set_running (Some 36) (k_mx [33, 32, 36] (\<lambda>t. None) ((\<lambda>t. None)(32 := Some 7)) \<lparr>mutex_lock = False, owner = Some 32, list_owner = None, first_waiting = Some 33, last_waiting = Some 33, previous_lock = None\<rparr>)
     = (0, (k_mx [36, 33, 32] (\<lambda>t. None) ((\<lambda>t. None)(32 := Some 7)) \<lparr>mutex_lock = False, owner = Some 32, list_owner = None, first_waiting = Some 33, last_waiting = Some 33, previous_lock = None\<rparr>))"
    by (simp add: set_running_k_mx)
  show "mutex_lock_fn 7 (k_mx [36, 33, 32] (\<lambda>t. None) ((\<lambda>t. None)(32 := Some 7)) \<lparr>mutex_lock = False, owner = Some 32, list_owner = None, first_waiting = Some 33, last_waiting = Some 33, previous_lock = None\<rparr>)
     = Inr (LockYieldOwner 32, (k_mx [36, 33, 32] ((\<lambda>t. None)(33 := Some 36)) ((\<lambda>t. None)(32 := Some 7)) \<lparr>mutex_lock = False, owner = Some 32, list_owner = None, first_waiting = Some 33, last_waiting = Some 36, previous_lock = None\<rparr>))"
    by (simp add: lock_wait_k_mx)
  show "set_running (Some 32) (k_mx [36, 33, 32] ((\<lambda>t. None)(33 := Some 36)) ((\<lambda>t. None)(32 := Some 7)) \<lparr>mutex_lock = False, owner = Some 32, list_owner = None, first_waiting = Some 33, last_waiting = Some 36, previous_lock = None\<rparr>)
     = (0, (k_mx [32, 36, 33] ((\<lambda>t. None)(33 := Some 36)) ((\<lambda>t. None)(32 := Some 7)) \<lparr>mutex_lock = False, owner = Some 32, list_owner = None, first_waiting = Some 33, last_waiting = Some 36, previous_lock = None\<rparr>))"
    by (simp add: set_running_k_mx)
  show "mutex_unlock 7 (k_mx [32, 36, 33] ((\<lambda>t. None)(33 := Some 36)) ((\<lambda>t. None)(32 := Some 7)) \<lparr>mutex_lock = False, owner = Some 32, list_owner = None, first_waiting = Some 33, last_waiting = Some 36, previous_lock = None\<rparr>)
     = Some (Inr (YieldTo 33, (k_mx [32, 36, 33] ((\<lambda>t. None)(33 := Some 36)) (\<lambda>t. None) \<lparr>mutex_lock = False, owner = Some 33, list_owner = None, first_waiting = Some 36, last_waiting = Some 36, previous_lock = None\<rparr>)))"
    by (simp add: unlock_k_mx fun_eq_iff)
  show "set_running (Some 33) (k_mx [32, 36, 33] ((\<lambda>t. None)(33 := Some 36)) (\<lambda>t. None) \<lparr>mutex_lock = False, owner = Some 33, list_owner = None, first_waiting = Some 36, last_waiting = Some 36, previous_lock = None\<rparr>)
     = (0, (k_mx [33, 32, 36] ((\<lambda>t. None)(33 := Some 36)) (\<lambda>t. None) \<lparr>mutex_lock = False, owner = Some 33, list_owner = None, first_waiting = Some 36, last_waiting = Some 36, previous_lock = None\<rparr>))"
    by (simp add: set_running_k_mx)
  show "mutex_lock_fn_resumed 33 7 (k_mx [33, 32, 36] ((\<lambda>t. None)(33 := Some 36)) (\<lambda>t. None) \<lparr>mutex_lock = False, owner = Some 33, list_owner = None, first_waiting = Some 36, last_waiting = Some 36, previous_lock = None\<rparr>)
     = Inr (LockReturned, (k_mx [33, 32, 36] ((\<lambda>t. None)(33 := Some 36)) ((\<lambda>t. None)(33 := Some 7)) \<lparr>mutex_lock = False, owner = Some 33, list_owner = None, first_waiting = Some 36, last_waiting = Some 36, previous_lock = None\<rparr>))"
    by (simp add: lock_resumed_k_mx fun_eq_iff)
  show "mutex_unlock 7 (k_mx [33, 32, 36] ((\<lambda>t. None)(33 := Some 36)) ((\<lambda>t. None)(33 := Some 7)) \<lparr>mutex_lock = False, owner = Some 33, list_owner = None, first_waiting = Some 36, last_waiting = Some 36, previous_lock = None\<rparr>)
     = Some (Inr (YieldTo 36, (k_mx [33, 32, 36] ((\<lambda>t. None)(33 := Some 36)) (\<lambda>t. None) \<lparr>mutex_lock = False, owner = Some 36, list_owner = None, first_waiting = None, last_waiting = None, previous_lock = None\<rparr>)))"
    by (simp add: unlock_k_mx fun_eq_iff)
  show "set_running (Some 36) (k_mx [33, 32, 36] ((\<lambda>t. None)(33 := Some 36)) (\<lambda>t. None) \<lparr>mutex_lock = False, owner = Some 36, list_owner = None, first_waiting = None, last_waiting = None, previous_lock = None\<rparr>)
     = (0, (k_mx [36, 33, 32] ((\<lambda>t. None)(33 := Some 36)) (\<lambda>t. None) \<lparr>mutex_lock = False, owner = Some 36, list_owner = None, first_waiting = None, last_waiting = None, previous_lock = None\<rparr>))"
    by (simp add: set_running_k_mx)
  show "mutex_lock_fn_resumed 36 7 (k_mx [36, 33, 32] ((\<lambda>t. None)(33 := Some 36)) (\<lambda>t. None) \<lparr>mutex_lock = False, owner = Some 36, list_owner = None, first_waiting = None, last_waiting = None, previous_lock = None\<rparr>)
     = Inr (LockReturned, (k_mx [36, 33, 32] ((\<lambda>t. None)(33 := Some 36)) ((\<lambda>t. None)(36 := Some 7)) \<lparr>mutex_lock = False, owner = Some 36, list_owner = None, first_waiting = None, last_waiting = None, previous_lock = None\<rparr>))"
    by (simp add: lock_resumed_k_mx fun_eq_iff)
  show "set_running (Some 33) (k_mx [36, 33, 32] ((\<lambda>t. None)(33 := Some 36)) ((\<lambda>t. None)(36 := Some 7)) \<lparr>mutex_lock = False, owner = Some 36, list_owner = None, first_waiting = None, last_waiting = None, previous_lock = None\<rparr>)
     = (0, (k_mx [33, 36, 32] ((\<lambda>t. None)(33 := Some 36)) ((\<lambda>t. None)(36 := Some 7)) \<lparr>mutex_lock = False, owner = Some 36, list_owner = None, first_waiting = None, last_waiting = None, previous_lock = None\<rparr>))"
    by (simp add: set_running_k_mx)
  show "mutex_lock_fn 7 (k_mx [33, 36, 32] ((\<lambda>t. None)(33 := Some 36)) ((\<lambda>t. None)(36 := Some 7)) \<lparr>mutex_lock = False, owner = Some 36, list_owner = None, first_waiting = None, last_waiting = None, previous_lock = None\<rparr>)
     = Inr (LockYieldOwner 36, (k_mx [33, 36, 32] ((\<lambda>t. None)(33 := Some 36)) ((\<lambda>t. None)(36 := Some 7)) \<lparr>mutex_lock = False, owner = Some 36, list_owner = None, first_waiting = Some 33, last_waiting = Some 33, previous_lock = None\<rparr>))"
    by (simp add: lock_wait_k_mx)
  show "set_running (Some 36) (k_mx [33, 36, 32] ((\<lambda>t. None)(33 := Some 36)) ((\<lambda>t. None)(36 := Some 7)) \<lparr>mutex_lock = False, owner = Some 36, list_owner = None, first_waiting = Some 33, last_waiting = Some 33, previous_lock = None\<rparr>)
     = (0, (k_mx [36, 33, 32] ((\<lambda>t. None)(33 := Some 36)) ((\<lambda>t. None)(36 := Some 7)) \<lparr>mutex_lock = False, owner = Some 36, list_owner = None, first_waiting = Some 33, last_waiting = Some 33, previous_lock = None\<rparr>))"
    by (simp add: set_running_k_mx)
  show "mutex_unlock 7 (k_mx [36, 33, 32] ((\<lambda>t. None)(33 := Some 36)) ((\<lambda>t. None)(36 := Some 7)) \<lparr>mutex_lock = False, owner = Some 36, list_owner = None, first_waiting = Some 33, last_waiting = Some 33, previous_lock = None\<rparr>)
     = Some (Inr (YieldTo 33, (k_mx [36, 33, 32] ((\<lambda>t. None)(33 := Some 36)) (\<lambda>t. None) \<lparr>mutex_lock = False, owner = Some 33, list_owner = None, first_waiting = Some 36, last_waiting = None, previous_lock = None\<rparr>)))"
    by (simp add: unlock_k_mx fun_eq_iff)
  show "set_running (Some 33) (k_mx [36, 33, 32] ((\<lambda>t. None)(33 := Some 36)) (\<lambda>t. None) \<lparr>mutex_lock = False, owner = Some 33, list_owner = None, first_waiting = Some 36, last_waiting = None, previous_lock = None\<rparr>)
     = (0, (k_mx [33, 36, 32] ((\<lambda>t. None)(33 := Some 36)) (\<lambda>t. None) \<lparr>mutex_lock = False, owner = Some 33, list_owner = None, first_waiting = Some 36, last_waiting = None, previous_lock = None\<rparr>))"
    by (simp add: set_running_k_mx)
  show "mutex_lock_fn_resumed 33 7 (k_mx [33, 36, 32] ((\<lambda>t. None)(33 := Some 36)) (\<lambda>t. None) \<lparr>mutex_lock = False, owner = Some 33, list_owner = None, first_waiting = Some 36, last_waiting = None, previous_lock = None\<rparr>)
     = Inr (LockReturned, (k_mx [33, 36, 32] ((\<lambda>t. None)(33 := Some 36)) ((\<lambda>t. None)(33 := Some 7)) \<lparr>mutex_lock = False, owner = Some 33, list_owner = None, first_waiting = Some 36, last_waiting = None, previous_lock = None\<rparr>))"
    by (simp add: lock_resumed_k_mx fun_eq_iff)
qed

text \<open>
  C5. What the code does where the claim says that \<open>mutex_unlock\<close> selects the
  earliest waiter. Let the running thread \<open>me\<close> hold mutex \<open>mp\<close> and let no thread
  wait for it: \<open>last_waiting\<close> is \<open>NULL\<close>, which is how \<open>waitlist_addLast\<close> tells an
  empty list. If \<open>first_waiting\<close> still points to a thread \<open>t\<close> whose state is
  \<open>THR_RUNNING\<close>, then \<open>mutex_unlock\<close> makes \<open>t\<close> the owner and yields to it,
  though \<open>t\<close> has not asked for the mutex: \<open>waitlist_removeHead\<close> tests
  \<open>first_waiting\<close> only, and it has left there the \<open>mutex_nextwait\<close> of the last
  thread it removed, a field that no code resets.
\<close>

theorem mutex_unlock_hands_over_to_non_waiter:
  assumes op: "operational st" and me: "get_running st = Some me"
    and free: "\<not> mutex_lock (mutexes st mp)"
    and acq: "acquired_lock (threads st me) = Some mp"
    and own: "owner (mutexes st mp) = Some me"
    and empty: "last_waiting (mutexes st mp) = None"
    and stale: "first_waiting (mutexes st mp) = Some t"
    and run: "t_state (threads st t) = THR_RUNNING"
  shows "\<exists>st'. mutex_unlock mp st = Some (Inr (YieldTo t, st'))
           \<and> owner (mutexes st' mp) = Some t
           \<and> last_waiting (mutexes st' mp) = None
           \<and> \<not> mutex_lock (mutexes st' mp)
           \<and> queues st' = queues st"
proof -
  have gs: "get_self st = Inr me" using me by (simp add: get_self_def)
  let ?st3 = "upd_mutex mp (\<lambda>m. m\<lparr>previous_lock := None\<rparr>)
           (upd_thread me (\<lambda>c. c\<lparr>acquired_lock := previous_lock (mutexes st mp)\<rparr>)
             (upd_mutex mp (\<lambda>m. m\<lparr>mutex_lock := True, list_owner := Some me\<rparr>) st))"
  let ?st4 = "upd_mutex mp (\<lambda>m. m\<lparr>owner := Some t\<rparr>)
           (upd_mutex mp (\<lambda>m. m\<lparr>first_waiting := mutex_nextwait (threads ?st3 t)\<rparr>) ?st3)"
  let ?st5 = "upd_mutex mp (\<lambda>m. m\<lparr>mutex_lock := False, list_owner := None\<rparr>) ?st4"
  have rh: "waitlist_removeHead mp ?st3
      = (Some t, upd_mutex mp (\<lambda>m. m\<lparr>first_waiting := mutex_nextwait (threads ?st3 t)\<rparr>) ?st3)"
    using op stale empty
    by (simp add: waitlist_removeHead_def Let_def upd_mutex_def upd_thread_def)
  have ts: "t_state (threads ?st4 t) = THR_RUNNING"
    using run by (auto simp add: upd_mutex_def upd_thread_def)
  have rl: "release_loop mp ?st3 = Some ?st4"
    by (subst release_loop.simps) (simp add: rh Let_def ts)
  have o3: "owner (mutexes ?st3 mp) \<noteq> None" using own by (simp add: upd_mutex_def upd_thread_def)
  have a1: "acquired_lock (threads (upd_mutex mp
        (\<lambda>m. m\<lparr>mutex_lock := True, list_owner := Some me\<rparr>) st) me) = Some mp"
    using acq by (simp add: upd_mutex_def)
  have pl: "previous_lock (mutexes (upd_mutex mp
        (\<lambda>m. m\<lparr>mutex_lock := True, list_owner := Some me\<rparr>) st) mp) = previous_lock (mutexes st mp)"
    by (simp add: upd_mutex_def)
  have o5: "owner (mutexes ?st5 mp) = Some t" by (simp add: upd_mutex_def)
  have u: "mutex_unlock mp st = Some (Inr (YieldTo t, ?st5))"
    unfolding mutex_unlock_def Let_def
    using op gs free a1 pl o3 rl o5 by simp
  have "last_waiting (mutexes ?st5 mp) = None" "\<not> mutex_lock (mutexes ?st5 mp)"
    "queues ?st5 = queues st"
    using empty by (simp_all add: upd_mutex_def upd_thread_def)
  with u o5 show ?thesis by (intro exI [of _ ?st5]) simp
qed

theorem mutex_unlock_hands_over_to_non_waiter_witness:
  "\<exists>s1 s2 s3 s4 s5 s6 s7 s8 s9 s10 s11 s12 s13 s14 s15 s16 s17 s18 st'.
     mutex_lock_fn 7 (mutex_init 7 k_mx_fresh) = Inr (LockReturned, s1)
   \<and> set_running (Some 33) s1 = (0, s2)
   \<and> mutex_lock_fn 7 s2 = Inr (LockYieldOwner 32, s3)
   \<and> set_running (Some 36) s3 = (0, s4)
   \<and> mutex_lock_fn 7 s4 = Inr (LockYieldOwner 32, s5)
   \<and> set_running (Some 32) s5 = (0, s6)
   \<and> mutex_unlock 7 s6 = Some (Inr (YieldTo 33, s7))
   \<and> set_running (Some 33) s7 = (0, s8)
   \<and> mutex_lock_fn_resumed 33 7 s8 = Inr (LockReturned, s9)
   \<and> mutex_unlock 7 s9 = Some (Inr (YieldTo 36, s10))
   \<and> set_running (Some 36) s10 = (0, s11)
   \<and> mutex_lock_fn_resumed 36 7 s11 = Inr (LockReturned, s12)
   \<and> set_running (Some 33) s12 = (0, s13)
   \<and> mutex_lock_fn 7 s13 = Inr (LockYieldOwner 36, s14)
   \<and> set_running (Some 36) s14 = (0, s15)
   \<and> mutex_unlock 7 s15 = Some (Inr (YieldTo 33, s16))
   \<and> set_running (Some 33) s16 = (0, s17)
   \<and> mutex_lock_fn_resumed 33 7 s17 = Inr (LockReturned, s18)
   \<and> last_waiting (mutexes s18 7) = None
   \<and> acquired_lock (threads s18 36) = None
   \<and> mutex_unlock 7 s18 = Some (Inr (YieldTo 36, st'))
   \<and> owner (mutexes st' 7) = Some 36"
proof -
  let ?s18 = "k_mx [33, 36, 32] ((\<lambda>t. None)(33 := Some 36)) ((\<lambda>t. None)(33 := Some 7)) \<lparr>mutex_lock = False, owner = Some 33, list_owner = None, first_waiting = Some 36, last_waiting = None, previous_lock = None\<rparr>"
  have h: "operational ?s18" "get_running ?s18 = Some 33" "\<not> mutex_lock (mutexes ?s18 7)"
    "acquired_lock (threads ?s18 33) = Some 7" "owner (mutexes ?s18 7) = Some 33"
    "last_waiting (mutexes ?s18 7) = None" "first_waiting (mutexes ?s18 7) = Some 36"
    "t_state (threads ?s18 36) = THR_RUNNING"
    by (simp_all add: k_mx_fields)
  from mutex_unlock_hands_over_to_non_waiter [OF h] obtain st' where
    u: "mutex_unlock 7 ?s18 = Some (Inr (YieldTo 36, st'))" "owner (mutexes st' 7) = Some 36"
    by (elim exE conjE) (rule that; assumption)
  have a: "acquired_lock (threads ?s18 36) = None" by (simp add: k_mx_fields)
  show ?thesis
    apply (intro exI conjI)
    apply (rule mutex_replay(1))
    apply (rule mutex_replay(2))
    apply (rule mutex_replay(3))
    apply (rule mutex_replay(4))
    apply (rule mutex_replay(5))
    apply (rule mutex_replay(6))
    apply (rule mutex_replay(7))
    apply (rule mutex_replay(8))
    apply (rule mutex_replay(9))
    apply (rule mutex_replay(10))
    apply (rule mutex_replay(11))
    apply (rule mutex_replay(12))
    apply (rule mutex_replay(13))
    apply (rule mutex_replay(14))
    apply (rule mutex_replay(15))
    apply (rule mutex_replay(16))
    apply (rule mutex_replay(17))
    apply (rule mutex_replay(18))
    apply (rule h(6))
    apply (rule a)
    apply (rule u(1))
    apply (rule u(2))
    done
qed

end
